theory Spec2Isabelle
  imports Main "HOL-Library.Multiset"
begin

section \<open>Strings\<close>

text \<open>
  A Python \<open>str\<close> is a sequence of code points. The model of the pipeline uses
  \<^typ>\<open>string\<close>, whose characters are the code points 0 to 255; the predicates of
  \<open>str\<close> that the program calls are written out for this range as CPython's Unicode
  tables give them. The TLD validation, the one function that reads these tables, is
  given a second time on lists of arbitrary code points.
\<close>

definition cp :: "char \<Rightarrow> nat" where
  "cp c = of_char c"

definition in_range :: "nat \<Rightarrow> nat \<Rightarrow> char \<Rightarrow> bool" where
  "in_range lo hi c = (lo \<le> cp c \<and> cp c \<le> hi)"

text \<open>\<open>c.isupper()\<close> for one character: A-Z, U+00C0-U+00D6, U+00D8-U+00DE.\<close>

definition chr_isupper :: "char \<Rightarrow> bool" where
  "chr_isupper c = (in_range 65 90 c \<or> in_range 192 214 c \<or> in_range 216 222 c)"

text \<open>\<open>c.islower()\<close> for one character: a-z, U+00AA, U+00B5, U+00BA, U+00DF-U+00F6,
  U+00F8-U+00FF.\<close>

definition chr_islower :: "char \<Rightarrow> bool" where
  "chr_islower c = (in_range 97 122 c \<or> cp c = 170 \<or> cp c = 181 \<or> cp c = 186
     \<or> in_range 223 246 c \<or> in_range 248 255 c)"

text \<open>\<open>c.isalpha()\<close> for one character.\<close>

definition chr_isalpha :: "char \<Rightarrow> bool" where
  "chr_isalpha c = (in_range 65 90 c \<or> in_range 97 122 c \<or> cp c = 170 \<or> cp c = 181
     \<or> cp c = 186 \<or> in_range 192 214 c \<or> in_range 216 246 c \<or> in_range 248 255 c)"

text \<open>\<open>c.isspace()\<close> for one character: U+0009-U+000D, U+001C-U+0020, U+0085, U+00A0.\<close>

definition chr_isspace :: "char \<Rightarrow> bool" where
  "chr_isspace c = (in_range 9 13 c \<or> in_range 28 32 c \<or> cp c = 133 \<or> cp c = 160)"

text \<open>\<open>s.isalpha()\<close>: at least one character, and all of them alphabetic.\<close>

definition str_isalpha :: "string \<Rightarrow> bool" where
  "str_isalpha s = (s \<noteq> [] \<and> list_all chr_isalpha s)"

text \<open>\<open>s.islower()\<close>: no uppercase (or titlecase) character and at least one lowercase
  one. There is no titlecase character below U+0100.\<close>

definition str_islower :: "string \<Rightarrow> bool" where
  "str_islower s = (list_all (\<lambda>c. \<not> chr_isupper c) s \<and> list_ex chr_islower s)"

text \<open>\<open>s.rfind(c)\<close>: the index of the last occurrence of \<open>c\<close>, or -1.\<close>

definition rfind :: "'a list \<Rightarrow> 'a \<Rightarrow> int" where
  "rfind s c = (if c \<in> set s
     then int (length s) - 1 - int (length (takeWhile (\<lambda>x. x \<noteq> c) (rev s)))
     else - 1)"

text \<open>\<open>s.split(c)\<close>: never the empty list; \<open>''''.split(c)\<close> is \<open>['''']\<close>.\<close>

fun split_on :: "char \<Rightarrow> string \<Rightarrow> string list" where
  "split_on c [] = [[]]"
| "split_on c (x # xs) =
     (if x = c then [] # split_on c xs
      else (case split_on c xs of [] \<Rightarrow> [[x]] | y # ys \<Rightarrow> (x # y) # ys))"

text \<open>\<open>c.join(parts)\<close>.\<close>

fun join_with :: "char \<Rightarrow> string list \<Rightarrow> string" where
  "join_with c [] = []"
| "join_with c [p] = p"
| "join_with c (p # q # ps) = p @ c # join_with c (q # ps)"

text \<open>\<open>s.strip()\<close>: whitespace removed at both ends.\<close>

definition strip :: "string \<Rightarrow> string" where
  "strip s = rev (dropWhile chr_isspace (rev (dropWhile chr_isspace s)))"

section \<open>TLD validation\<close>

text \<open>
  \<^verbatim>\<open>
  def has_valid_tld(domain):
      if not domain:
          return False
      if len(domain) < 3 or '.' not in domain:
          return False
      last_dot = domain.rfind('.')
      if last_dot == -1 or last_dot == len(domain) - 1:
          return False
      tld = domain[last_dot + 1:]
      return len(tld) >= 2 and tld.islower() and tld.isalpha()
  \<close>
\<close>

definition has_valid_tld :: "string \<Rightarrow> bool" where
  "has_valid_tld domain =
     (if domain = [] then False
      else if length domain < 3 \<or> CHR ''.'' \<notin> set domain then False
      else let last_dot = rfind domain CHR ''.'' in
        if last_dot = - 1 \<or> last_dot = int (length domain) - 1 then False
        else let tld = drop (nat (last_dot + 1)) domain in
          length tld \<ge> 2 \<and> str_islower tld \<and> str_isalpha tld)"

text \<open>The substring after the last dot, as the specification words it.\<close>

definition after_last_dot :: "string \<Rightarrow> string" where
  "after_last_dot d = rev (takeWhile (\<lambda>x. x \<noteq> CHR ''.'') (rev d))"

section \<open>TLD validation on a str of any code points\<close>

text \<open>
  A Python \<open>str\<close> in general is a list of code points, here natural numbers.
  \<open>str.isalpha\<close> and \<open>str.islower\<close> read four properties of a code point from the
  Unicode database: alphabetic, uppercase, titlecase and lowercase. The database is a
  parameter, so that what is proved of \<open>has_valid_tld\<close> holds whatever it says.
\<close>

record ucd =
  is_alpha :: "nat \<Rightarrow> bool"
  is_upper :: "nat \<Rightarrow> bool"
  is_title :: "nat \<Rightarrow> bool"
  is_lower :: "nat \<Rightarrow> bool"

text \<open>\<open>s.isalpha()\<close>: at least one character, and all of them alphabetic.\<close>

definition ustr_isalpha :: "ucd \<Rightarrow> nat list \<Rightarrow> bool" where
  "ustr_isalpha U s = (s \<noteq> [] \<and> list_all (is_alpha U) s)"

text \<open>\<open>s.islower()\<close>: no uppercase and no titlecase character, and at least one
  lowercase one.\<close>

definition ustr_islower :: "ucd \<Rightarrow> nat list \<Rightarrow> bool" where
  "ustr_islower U s =
     (list_all (\<lambda>c. \<not> is_upper U c \<and> \<not> is_title U c) s \<and> list_ex (is_lower U) s)"

text \<open>The code point of \<open>.\<close>.\<close>

definition full_stop :: nat where
  "full_stop = 46"

text \<open>\<open>has_valid_tld\<close>, line by line as above, on a list of code points.\<close>

definition has_valid_tld_unicode :: "ucd \<Rightarrow> nat list \<Rightarrow> bool" where
  "has_valid_tld_unicode U domain =
     (if domain = [] then False
      else if length domain < 3 \<or> full_stop \<notin> set domain then False
      else let last_dot = rfind domain full_stop in
        if last_dot = - 1 \<or> last_dot = int (length domain) - 1 then False
        else let tld = drop (nat (last_dot + 1)) domain in
          length tld \<ge> 2 \<and> ustr_islower U tld \<and> ustr_isalpha U tld)"

text \<open>The part of a list after the last occurrence of \<open>c\<close>.\<close>

definition after_last :: "'a \<Rightarrow> 'a list \<Rightarrow> 'a list" where
  "after_last c d = rev (takeWhile (\<lambda>x. x \<noteq> c) (rev d))"

text \<open>The code points of a string of the model.\<close>

definition code_points :: "string \<Rightarrow> nat list" where
  "code_points s = map cp s"

text \<open>
  CPython's database on the code points of the examples: 0 to 255 (the tables of the
  first section), the ideographs U+4E00 to U+9FA5, which are alphabetic and have no
  case, and the titlecase letter U+01C5. All four properties are false of every other
  code point here, which is not what CPython says of them; no example uses one.
\<close>

definition py_ucd :: ucd where
  "py_ucd =
     \<lparr>is_alpha = (\<lambda>n. 65 \<le> n \<and> n \<le> 90 \<or> 97 \<le> n \<and> n \<le> 122 \<or> n = 170 \<or> n = 181
                     \<or> n = 186 \<or> 192 \<le> n \<and> n \<le> 214 \<or> 216 \<le> n \<and> n \<le> 246
                     \<or> 248 \<le> n \<and> n \<le> 255 \<or> 0x4E00 \<le> n \<and> n \<le> 0x9FA5 \<or> n = 0x1C5),
      is_upper = (\<lambda>n. 65 \<le> n \<and> n \<le> 90 \<or> 192 \<le> n \<and> n \<le> 214 \<or> 216 \<le> n \<and> n \<le> 222),
      is_title = (\<lambda>n. n = 0x1C5),
      is_lower = (\<lambda>n. 97 \<le> n \<and> n \<le> 122 \<or> n = 170 \<or> n = 181 \<or> n = 186
                     \<or> 223 \<le> n \<and> n \<le> 246 \<or> 248 \<le> n \<and> n \<le> 255)\<rparr>"

text \<open>The domains \<open>a.\<close> followed by the ideographs U+4E2D U+56FD, and \<open>a.\<close> followed by
  U+01C5 twice.\<close>

definition ideograph_domain :: "nat list" where
  "ideograph_domain = [97, 46, 0x4E2D, 0x56FD]"

definition titlecase_domain :: "nat list" where
  "titlecase_domain = [97, 46, 0x1C5, 0x1C5]"

section \<open>Regular expressions\<close>

text \<open>
  A compiled pattern is used through its method \<open>match\<close> only, so the model of a
  compiled pattern is that method: \<open>p s\<close> is \<open>None\<close> when \<open>p.match(s)\<close> finds no match,
  and otherwise the tuple \<open>groups()\<close> of the match, where a group that took no part in
  the match is Python's \<open>None\<close>.
\<close>

type_synonym pattern = "string \<Rightarrow> string option list option"

text \<open>
  For concrete rules, the fragment of the \<open>re\<close> syntax that the built-in rules are
  written in: literal characters, \<open>.\<close>, a negated class, \<open>^\<close>, \<open>$\<close>, sequence,
  alternation, greedy \<open>*\<close> and \<open>+\<close>, and numbered capture groups.
\<close>

datatype regex =
    Chr char
  | Dot
  | NotIn "char list"
  | Bol
  | Eol
  | Eps
  | Seq regex regex
  | Alt regex regex
  | Star regex
  | Grp nat regex

text \<open>\<open>a+\<close> is \<open>a\<close> followed by \<open>a*\<close>.\<close>

definition Plus :: "regex \<Rightarrow> regex" where
  "Plus a = Seq a (Star a)"

text \<open>
  A matching state: the number of characters consumed, the rest of the subject, and the
  groups captured so far. The matcher lists the states a pattern can end in, in the
  order a backtracking matcher tries them (greedy repetition first); an iteration of a
  repetition that consumes nothing is cut.
\<close>

type_synonym mstate = "nat \<times> string \<times> (nat \<rightharpoonup> string)"

fun step_chr :: "(char \<Rightarrow> bool) \<Rightarrow> mstate \<Rightarrow> mstate list" where
  "step_chr P (n, [], g) = []"
| "step_chr P (n, x # xs, g) = (if P x then [(Suc n, xs, g)] else [])"

definition shorter :: "mstate \<Rightarrow> mstate \<Rightarrow> bool" where
  "shorter t s = (length (fst (snd t)) < length (fst (snd s)))"

function matches :: "regex \<Rightarrow> mstate \<Rightarrow> mstate list" where
  "matches (Chr c) s = step_chr (\<lambda>x. x = c) s"
| "matches Dot s = step_chr (\<lambda>x. x \<noteq> CHR 0x0A) s"
| "matches (NotIn cs) s = step_chr (\<lambda>x. x \<notin> set cs) s"
| "matches Bol s = (if fst s = 0 then [s] else [])"
| "matches Eol s = (if fst (snd s) = [] \<or> fst (snd s) = [CHR 0x0A] then [s] else [])"
| "matches Eps s = [s]"
| "matches (Seq a b) s = concat (map (matches b) (matches a s))"
| "matches (Alt a b) s = matches a s @ matches b s"
| "matches (Star a) s =
     concat (map (\<lambda>t. if shorter t s then matches (Star a) t else []) (matches a s)) @ [s]"
| "matches (Grp i a) s =
     map (\<lambda>(n, r, g). (n, r, g(i \<mapsto> take (n - fst s) (fst (snd s))))) (matches a s)"
  by pat_completeness auto
termination
  by (relation "inv_image (less_than <*lex*> less_than)
        (\<lambda>(r, s). (size r, length (fst (snd s))))")
     (auto simp: shorter_def)

text \<open>The highest group number of a pattern: the length of \<open>groups()\<close>.\<close>

fun ngroups :: "regex \<Rightarrow> nat" where
  "ngroups (Seq a b) = max (ngroups a) (ngroups b)"
| "ngroups (Alt a b) = max (ngroups a) (ngroups b)"
| "ngroups (Star a) = ngroups a"
| "ngroups (Grp i a) = max i (ngroups a)"
| "ngroups _ = 0"

definition groups_of :: "regex \<Rightarrow> (nat \<rightharpoonup> string) \<Rightarrow> string option list" where
  "groups_of r g = map g [1 ..< Suc (ngroups r)]"

text \<open>\<open>re_match r\<close> is the method \<open>match\<close> of the compiled pattern \<open>r\<close>: the first way
  to match at the start of the subject; the match need not reach the end.\<close>

definition re_match :: "regex \<Rightarrow> pattern" where
  "re_match r s = (case matches r (0, s, Map.empty) of
       [] \<Rightarrow> None
     | (n, rest, g) # _ \<Rightarrow> Some (groups_of r g))"

text \<open>\<open>re_fullmatch r\<close> is the method \<open>fullmatch\<close>: the first way to match that
  consumes the whole subject.\<close>

definition re_fullmatch :: "regex \<Rightarrow> pattern" where
  "re_fullmatch r s = (case filter (\<lambda>(n, rest, g). rest = []) (matches r (0, s, Map.empty)) of
       [] \<Rightarrow> None
     | (n, rest, g) # _ \<Rightarrow> Some (groups_of r g))"

text \<open>A literal string as a pattern.\<close>

fun lit :: "string \<Rightarrow> regex" where
  "lit [] = Eps"
| "lit [c] = Chr c"
| "lit (c # cs) = Seq (Chr c) (lit cs)"

text \<open>The built-in rule shape \<^verbatim>\<open>^.+\.(suffix)$\<close>, with the suffix a literal.\<close>

definition suffix_rule :: "string \<Rightarrow> regex" where
  "suffix_rule suffix =
     Seq Bol (Seq (Plus Dot) (Seq (Chr CHR ''.'') (Seq (Grp 1 (lit suffix)) Eol)))"

section \<open>Normalization\<close>

text \<open>
  \<^verbatim>\<open>
  def apply_pattern_normalization(domain, patterns):
      if not patterns:
          return domain
      for pattern in patterns:
          match = pattern.match(domain)
          if match and match.groups():
              return match.group(1)
      return domain
  \<close>
  The result is \<open>match.group(1)\<close> as it is, so it can be Python's \<open>None\<close> (the
  value \<open>None\<close> of the model) when the first group took no part in the match.
\<close>

fun apply_pattern_normalization :: "string \<Rightarrow> pattern list \<Rightarrow> string option" where
  "apply_pattern_normalization domain [] = Some domain"
| "apply_pattern_normalization domain (pattern # patterns) =
     (case pattern domain of
        None \<Rightarrow> apply_pattern_normalization domain patterns
      | Some [] \<Rightarrow> apply_pattern_normalization domain patterns
      | Some (g # gs) \<Rightarrow> g)"

text \<open>
  \<^verbatim>\<open>
  def normalize_domain(domain, patterns=None):
      if not domain:
          return domain
      dot_count = domain.count('.')
      if dot_count <= 2:
          normalized_domain = domain
      else:
          parts = domain.split('.')
          normalized_domain = '.'.join(parts[-3:])
      if patterns:
          normalized_domain = apply_pattern_normalization(normalized_domain, patterns)
      return normalized_domain
  \<close>
  The rule list is a list in every call of the program; \<open>None\<close> and the empty list
  are both false in \<open>if patterns\<close>.
\<close>

definition normalize_domain :: "string \<Rightarrow> pattern list \<Rightarrow> string option" where
  "normalize_domain domain patterns =
     (if domain = [] then Some domain
      else let dot_count = count_list domain CHR ''.'';
               normalized_domain =
                 (if dot_count \<le> 2 then domain
                  else let parts = split_on CHR ''.'' domain
                       in join_with CHR ''.'' (drop (length parts - 3) parts))
           in if patterns \<noteq> [] then apply_pattern_normalization normalized_domain patterns
              else Some normalized_domain)"

text \<open>\<open>normalize_domain\<close> on a value that may be \<open>None\<close>: \<open>not domain\<close> returns it.\<close>

fun normalize_val :: "string option \<Rightarrow> pattern list \<Rightarrow> string option" where
  "normalize_val None patterns = None"
| "normalize_val (Some domain) patterns = normalize_domain domain patterns"

text \<open>The rule step as the specification words it: the first rule that matches the
  domain from start to end with a non-empty first capture group gives that group.\<close>

fun spec_rule_step :: "string \<Rightarrow> regex list \<Rightarrow> string" where
  "spec_rule_step domain [] = domain"
| "spec_rule_step domain (r # rs) =
     (case re_fullmatch r domain of
        Some (Some g # gs) \<Rightarrow> (if g \<noteq> [] then g else spec_rule_step domain rs)
      | _ \<Rightarrow> spec_rule_step domain rs)"

text \<open>What the loop of \<open>apply_pattern_normalization\<close> tests of a pattern: a match
  whose \<open>groups()\<close> is not the empty tuple.\<close>

definition match_with_groups :: "string \<Rightarrow> pattern \<Rightarrow> bool" where
  "match_with_groups domain pattern =
     (case pattern domain of None \<Rightarrow> False | Some [] \<Rightarrow> False | Some (g # gs) \<Rightarrow> True)"

definition group1 :: "string \<Rightarrow> pattern \<Rightarrow> string option" where
  "group1 domain pattern =
     (case pattern domain of None \<Rightarrow> None | Some [] \<Rightarrow> None | Some (g # gs) \<Rightarrow> g)"

section \<open>Batches\<close>

text \<open>The triple that \<open>process_url_batch\<close> returns and the orchestrator accumulates:
  a set, a \<open>Counter\<close> (a dictionary with integer values) and an integer.\<close>

record partial_result =
  domains :: "string set"
  counts :: "string \<rightharpoonup> int"
  removed :: int

definition empty_result :: partial_result where
  "empty_result = \<lparr>domains = {}, counts = Map.empty, removed = 0\<rparr>"

text \<open>\<open>counter[k]\<close>: a missing key reads as 0.\<close>

definition counter_get :: "(string \<rightharpoonup> int) \<Rightarrow> string \<Rightarrow> int" where
  "counter_get m k = (case m k of None \<Rightarrow> 0 | Some c \<Rightarrow> c)"

text \<open>\<open>counter[k] += 1\<close>.\<close>

definition counter_incr :: "(string \<rightharpoonup> int) \<Rightarrow> string \<Rightarrow> (string \<rightharpoonup> int)" where
  "counter_incr m k = m(k \<mapsto> counter_get m k + 1)"

text \<open>\<open>counter.update(other)\<close>: every key of \<open>other\<close> gets its count added.\<close>

definition counter_update :: "(string \<rightharpoonup> int) \<Rightarrow> (string \<rightharpoonup> int) \<Rightarrow> (string \<rightharpoonup> int)" where
  "counter_update m other =
     (\<lambda>k. case other k of None \<Rightarrow> m k | Some c \<Rightarrow> Some (c + counter_get m k))"

text \<open>
  One iteration of the loop of \<open>process_url_batch\<close>. \<open>netloc url\<close> stands for
  \<open>urlparse(url).netloc\<close> of the standard library: \<open>None\<close> when it raises, which the
  \<open>except\<close> clause of the loop body turns into the next iteration.
  \<^verbatim>\<open>
  domain = urlparse(url).netloc
  if not domain:
      continue
  if not has_valid_tld(domain):
      batch_removed += 1
      continue
  normalized_domain = normalize_domain(domain, patterns)
  if not has_valid_tld(normalized_domain):
      batch_removed += 1
      continue
  batch_domains.add(normalized_domain)
  batch_counts[normalized_domain] += 1
  \<close>
  \<open>has_valid_tld(None)\<close> is false by its first test.
\<close>

definition process_url ::
  "(string \<Rightarrow> string option) \<Rightarrow> pattern list \<Rightarrow> partial_result \<Rightarrow> string \<Rightarrow> partial_result" where
  "process_url netloc patterns r url =
     (case netloc url of
        None \<Rightarrow> r
      | Some domain \<Rightarrow>
          if domain = [] then r
          else if \<not> has_valid_tld domain then r\<lparr>removed := removed r + 1\<rparr>
          else (case normalize_domain domain patterns of
                  None \<Rightarrow> r\<lparr>removed := removed r + 1\<rparr>
                | Some normalized_domain \<Rightarrow>
                    if \<not> has_valid_tld normalized_domain then r\<lparr>removed := removed r + 1\<rparr>
                    else r\<lparr>domains := insert normalized_domain (domains r),
                           counts := counter_incr (counts r) normalized_domain\<rparr>))"

definition process_url_batch ::
  "(string \<Rightarrow> string option) \<Rightarrow> string list \<Rightarrow> pattern list \<Rightarrow> partial_result" where
  "process_url_batch netloc batch_urls patterns =
     foldl (process_url netloc patterns) empty_result batch_urls"

text \<open>The four things that can happen to a URL, as the specification lists them.\<close>

datatype outcome = Skipped | RejectedRaw | RejectedNormalized | Counted string

definition classify :: "(string \<Rightarrow> string option) \<Rightarrow> pattern list \<Rightarrow> string \<Rightarrow> outcome" where
  "classify netloc patterns url =
     (case netloc url of
        None \<Rightarrow> Skipped
      | Some host \<Rightarrow>
          if host = [] then Skipped
          else if \<not> has_valid_tld host then RejectedRaw
          else (case normalize_domain host patterns of
                  None \<Rightarrow> RejectedNormalized
                | Some d \<Rightarrow> if has_valid_tld d then Counted d else RejectedNormalized))"

fun effect :: "outcome \<Rightarrow> partial_result \<Rightarrow> partial_result" where
  "effect Skipped r = r"
| "effect RejectedRaw r = r\<lparr>removed := removed r + 1\<rparr>"
| "effect RejectedNormalized r = r\<lparr>removed := removed r + 1\<rparr>"
| "effect (Counted d) r =
     r\<lparr>domains := insert d (domains r), counts := (counts r)(d \<mapsto> counter_get (counts r) d + 1)\<rparr>"

text \<open>The extracted host is non-empty.\<close>

definition has_host :: "(string \<Rightarrow> string option) \<Rightarrow> string \<Rightarrow> bool" where
  "has_host netloc url = (case netloc url of None \<Rightarrow> False | Some host \<Rightarrow> host \<noteq> [])"

text \<open>\<open>sum(counts.values())\<close>.\<close>

definition sum_counts :: "(string \<rightharpoonup> int) \<Rightarrow> int" where
  "sum_counts m = (\<Sum>k \<in> dom m. counter_get m k)"

text \<open>The set is the key set of the counter, and every count is at least 1.\<close>

definition consistent :: "partial_result \<Rightarrow> bool" where
  "consistent r = (domains r = dom (counts r) \<and> (\<forall>k \<in> dom (counts r). 1 \<le> counter_get (counts r) k))"

section \<open>The orchestrator\<close>

text \<open>
  The merge of a batch's triple into the accumulated one:
  \<^verbatim>\<open>
  unique_domains.update(batch_domains)
  domain_counts.update(batch_counts)
  domains_removed += batch_removed
  \<close>
\<close>

definition merge :: "partial_result \<Rightarrow> partial_result \<Rightarrow> partial_result" where
  "merge acc b =
     \<lparr>domains = domains acc \<union> domains b,
      counts = counter_update (counts acc) (counts b),
      removed = removed acc + removed b\<rparr>"

definition batch_size :: nat where
  "batch_size = 25000"

text \<open>\<open>all_urls[start_idx:end_idx]\<close> of batch \<open>batch_num\<close>.\<close>

definition batch_slice :: "nat \<Rightarrow> 'a list \<Rightarrow> nat \<Rightarrow> 'a list" where
  "batch_slice bs all_urls batch_num =
     (let start_idx = batch_num * bs;
          end_idx = min (start_idx + bs) (length all_urls)
      in take (end_idx - start_idx) (drop start_idx all_urls))"

text \<open>Processing and merging the batches in the order \<open>order\<close>.\<close>

definition merge_batches ::
  "(string \<Rightarrow> string option) \<Rightarrow> nat \<Rightarrow> string list \<Rightarrow> pattern list \<Rightarrow> nat list \<Rightarrow> partial_result" where
  "merge_batches netloc bs all_urls patterns order =
     foldl (\<lambda>acc batch_num.
              merge acc (process_url_batch netloc (batch_slice bs all_urls batch_num) patterns))
       empty_result order"

datatype run_error = QueryError | ZeroBatchSize | PoolSizeError

text \<open>
  The body of \<open>extract_domains_from_urls\<close> after the query, with the batch size a
  parameter. \<open>cpu_count\<close> is \<open>multiprocessing.cpu_count()\<close>; \<open>completion\<close> is the order
  in which \<open>as_completed\<close> yields the batches on the parallel path.
  \<open>ThreadPoolExecutor\<close> raises \<open>ValueError\<close> for a pool size below 1.
  \<^verbatim>\<open>
  if max_workers is None:
      max_workers = min(multiprocessing.cpu_count(), 8)
  total_batches = (len(all_urls) + batch_size - 1) // batch_size
  if max_workers == 1 or total_batches <= 2:
      for batch_num in range(total_batches): ... merge ...
  else:
      with ThreadPoolExecutor(max_workers=max_workers) as executor:
          ... submit all batches ...
          for future in as_completed(future_to_batch): ... merge ...
  \<close>
\<close>

definition run_batches ::
  "(string \<Rightarrow> string option) \<Rightarrow> nat \<Rightarrow> string list \<Rightarrow> pattern list \<Rightarrow> int option \<Rightarrow> int \<Rightarrow> nat list
     \<Rightarrow> run_error + partial_result" where
  "run_batches netloc bs all_urls patterns max_workers cpu_count completion =
     (if bs = 0 then Inl ZeroBatchSize
      else let workers = (case max_workers of None \<Rightarrow> min cpu_count 8 | Some w \<Rightarrow> w);
               total_batches = (length all_urls + bs - 1) div bs
           in if workers = 1 \<or> total_batches \<le> 2
              then Inr (merge_batches netloc bs all_urls patterns [0 ..< total_batches])
              else if workers \<le> 0 then Inl PoolSizeError
              else Inr (merge_batches netloc bs all_urls patterns completion))"

text \<open>\<open>cursor\<close> is the result of the query \<open>SELECT url FROM urls\<close>: the rows, or
  \<open>None\<close> when the query raises.\<close>

definition extract_domains_from_urls ::
  "(string \<Rightarrow> string option) \<Rightarrow> string list option \<Rightarrow> pattern list \<Rightarrow> int option \<Rightarrow> int \<Rightarrow> nat list
     \<Rightarrow> run_error + partial_result" where
  "extract_domains_from_urls netloc cursor patterns max_workers cpu_count completion =
     (case cursor of
        None \<Rightarrow> Inl QueryError
      | Some all_urls \<Rightarrow>
          run_batches netloc batch_size all_urls patterns max_workers cpu_count completion)"

text \<open>The number of batches of a run.\<close>

definition total_batches :: "nat \<Rightarrow> 'a list \<Rightarrow> nat" where
  "total_batches bs all_urls = (length all_urls + bs - 1) div bs"

text \<open>A host extraction for the examples, for URLs of the shape
  \<open>scheme://host/path\<close>: the text between the first \<open>//\<close> after the scheme and the
  next \<open>/\<close>, \<open>?\<close> or \<open>#\<close>, and the empty host when there is no \<open>//\<close>.\<close>

definition example_netloc :: "string \<Rightarrow> string option" where
  "example_netloc url =
     (let rest = (case dropWhile (\<lambda>c. c \<noteq> CHR '':'') url of [] \<Rightarrow> url | c # r \<Rightarrow> r)
      in if take 2 rest = ''//''
         then Some (takeWhile (\<lambda>c. c \<notin> set ''/?#'') (drop 2 rest))
         else Some [])"

section \<open>Loading the rules\<close>

text \<open>
  The file system as \<open>load_domain_patterns\<close> sees it: a path does not exist
  (\<open>None\<close>), or reading it yields all its lines, or reading raises after some lines
  (a directory, a permission or a decoding error).
\<close>

datatype read_result = ReadOk "string list" | ReadFailed "string list"

type_synonym filesystem = "string \<Rightarrow> read_result option"

text \<open>The exceptions that \<open>load_domain_patterns\<close> raises.\<close>

datatype load_error =
    FileNotFound string
  | CouldNotLoad string
  | InvalidPatterns
  | AllPatternsFailed
  | CompileRaised

text \<open>What the loader prints: a line \<open>file:line_num: invalid regex pattern\<close>, or one
  of its warnings.\<close>

datatype message =
    InvalidRegex string nat
  | WarnCouldNotLoad string
  | WarnAllFailed
  | WarnSomeFailed

definition backslash :: char where
  "backslash = CHR 0x5C"

text \<open>A literal suffix with its dots escaped, as the built-in rules write it.\<close>

definition esc :: "string \<Rightarrow> string" where
  "esc s = concat (map (\<lambda>c. if c = CHR ''.'' then [backslash, c] else [c]) s)"

text \<open>The source text \<^verbatim>\<open>^.+\.(body)$\<close>.\<close>

definition rule_text :: "string \<Rightarrow> string" where
  "rule_text body = ''^.+'' @ [backslash] @ ''.('' @ body @ '')$''"

text \<open>The built-in list \<open>default_patterns\<close>, in the order of the source.\<close>

definition default_patterns :: "string list" where
  "default_patterns = map rule_text
     [esc ''cloudfront.net'', esc ''amazonaws.com'', esc ''herokuapp.com'',
      esc ''netlify.app'', esc ''vercel.app'', esc ''github.io'',
      esc ''firebaseapp.com'', esc ''appspot.com'', esc ''azurewebsites.net'',
      esc ''cloudflare.com'', esc ''fastly.com'', esc ''cdn.com'',
      esc ''cdn.net'', esc ''cdn.org'', esc ''s3.amazonaws.com'',
      ''s3-website-[^.]+'' @ esc ''.amazonaws.com'', esc ''elasticbeanstalk.com'',
      esc ''railway.app'', esc ''render.com'', esc ''fly.io'',
      esc ''digitaloceanspaces.com'', esc ''bunnycdn.com'',
      esc ''stackpathcdn.com'', esc ''keycdn.com'']"

text \<open>
  The lines kept from a file, each with its line number:
  \<^verbatim>\<open>
  for line_num, line in enumerate(f, 1):
      line = line.strip()
      if line and not line.startswith('#'):
          patterns.append((line, line_num))
  \<close>
\<close>

definition is_rule_line :: "string \<Rightarrow> bool" where
  "is_rule_line line = (line \<noteq> [] \<and> take 1 line \<noteq> ''#'')"

definition read_patterns :: "string list \<Rightarrow> (string \<times> nat) list" where
  "read_patterns file_lines =
     filter (\<lambda>(line, line_num). is_rule_line line)
       (map (\<lambda>(line_num, line). (strip line, line_num)) (enumerate 1 file_lines))"

text \<open>
  What \<open>re.compile\<close> does with a text: it returns a compiled pattern, or raises
  \<open>re.error\<close>, or raises another exception (\<open>ValueError\<close> for incompatible flags,
  \<open>OverflowError\<close> for a repetition count that is too large, \<open>RecursionError\<close>).
\<close>

datatype 'p compiled = Compiled 'p | ReError | Raised

text \<open>
  The compile loop; \<open>re_compile\<close> stands for \<open>re.compile\<close>. The loop catches
  \<open>re.error\<close> only, so any other exception leaves it, and the function: the result
  \<open>None\<close>.
  \<^verbatim>\<open>
  for pattern, line_num in patterns:
      try:
          compiled_patterns.append(re.compile(pattern))
      except re.error as e:
          errors.append(f"{file}:{line_num}: invalid regex pattern: {e}")
  \<close>
\<close>

fun compile_all ::
  "(string \<Rightarrow> 'p compiled) \<Rightarrow> string \<Rightarrow> (string \<times> nat) list
     \<Rightarrow> ('p list \<times> message list) option" where
  "compile_all re_compile file [] = Some ([], [])"
| "compile_all re_compile file ((pattern, line_num) # rest) =
     (case re_compile pattern of
        Raised \<Rightarrow> None
      | Compiled p \<Rightarrow>
          (case compile_all re_compile file rest of
             None \<Rightarrow> None
           | Some (compiled, errors) \<Rightarrow> Some (p # compiled, errors))
      | ReError \<Rightarrow>
          (case compile_all re_compile file rest of
             None \<Rightarrow> None
           | Some (compiled, errors) \<Rightarrow> Some (compiled, InvalidRegex file line_num # errors)))"

text \<open>The branch \<open>pattern_file_path is not None\<close>. The result is what was printed
  and the value returned or the exception raised.\<close>

definition load_strict ::
  "(string \<Rightarrow> 'p compiled) \<Rightarrow> filesystem \<Rightarrow> string \<Rightarrow> message list \<times> (load_error + 'p list)" where
  "load_strict re_compile fs pattern_file_path =
     (case fs pattern_file_path of
        None \<Rightarrow> ([], Inl (FileNotFound pattern_file_path))
      | Some (ReadFailed seen) \<Rightarrow> ([], Inl (CouldNotLoad pattern_file_path))
      | Some (ReadOk file_lines) \<Rightarrow>
          (case compile_all re_compile pattern_file_path (read_patterns file_lines) of
             None \<Rightarrow> ([], Inl CompileRaised)
           | Some (compiled_patterns, errors) \<Rightarrow>
               if errors \<noteq> [] then (errors, Inl InvalidPatterns)
               else ([], Inr compiled_patterns)))"

definition default_file :: string where
  "default_file = ''domain_patterns.txt''"

text \<open>The lines that the lenient branch gets from the default file, and the warning
  of a failed read; the lines read before the failure are kept.\<close>

definition read_default :: "filesystem \<Rightarrow> (string \<times> nat) list \<times> message list" where
  "read_default fs =
     (case fs default_file of
        None \<Rightarrow> ([], [])
      | Some (ReadOk file_lines) \<Rightarrow> (read_patterns file_lines, [])
      | Some (ReadFailed seen) \<Rightarrow> (read_patterns seen, [WarnCouldNotLoad default_file]))"

text \<open>The built-in texts with their numbers, as the loop over
  \<open>enumerate(default_patterns, 1)\<close> sees them.\<close>

definition numbered_defaults :: "(string \<times> nat) list" where
  "numbered_defaults = map (\<lambda>(i, pattern). (pattern, i)) (enumerate 1 default_patterns)"

text \<open>The branch \<open>pattern_file_path is None\<close>.\<close>

definition load_lenient ::
  "(string \<Rightarrow> 'p compiled) \<Rightarrow> filesystem \<Rightarrow> message list \<times> (load_error + 'p list)" where
  "load_lenient re_compile fs =
     (let (patterns, warned) = read_default fs
      in case compile_all re_compile default_file patterns of
           None \<Rightarrow> (warned, Inl CompileRaised)
         | Some (compiled_patterns, errors) \<Rightarrow>
             if compiled_patterns = [] then
               (let warned_all = (if errors \<noteq> [] then [WarnAllFailed] else [])
                in case compile_all re_compile ''default_patterns.txt'' numbered_defaults of
                     None \<Rightarrow> (warned @ warned_all, Inl CompileRaised)
                   | Some (builtin, builtin_errors) \<Rightarrow>
                       if builtin = []
                       then (warned @ warned_all @ errors @ builtin_errors, Inl AllPatternsFailed)
                       else (warned @ warned_all, Inr builtin))
             else (warned @ (if errors \<noteq> [] then WarnSomeFailed # errors else []),
                   Inr compiled_patterns))"

definition load_domain_patterns ::
  "(string \<Rightarrow> 'p compiled) \<Rightarrow> filesystem \<Rightarrow> string option
     \<Rightarrow> message list \<times> (load_error + 'p list)" where
  "load_domain_patterns re_compile fs pattern_file_path =
     (case pattern_file_path of
        Some path \<Rightarrow> load_strict re_compile fs path
      | None \<Rightarrow> load_lenient re_compile fs)"

text \<open>Of a list of numbered texts: the rules of those that compile, in order; the
  numbers of those on which \<open>re.compile\<close> raises \<open>re.error\<close>; and whether
  \<open>re.compile\<close> raises another exception on one of them.\<close>

definition compiled_of :: "(string \<Rightarrow> 'p compiled) \<Rightarrow> (string \<times> nat) list \<Rightarrow> 'p list" where
  "compiled_of re_compile patterns =
     List.map_filter
       (\<lambda>(pattern, line_num).
          case re_compile pattern of Compiled p \<Rightarrow> Some p | ReError \<Rightarrow> None | Raised \<Rightarrow> None)
       patterns"

definition failing_lines :: "(string \<Rightarrow> 'p compiled) \<Rightarrow> (string \<times> nat) list \<Rightarrow> nat list" where
  "failing_lines re_compile patterns =
     map snd (filter (\<lambda>(pattern, line_num). re_compile pattern = ReError) patterns)"

definition raising :: "(string \<Rightarrow> 'p compiled) \<Rightarrow> (string \<times> nat) list \<Rightarrow> bool" where
  "raising re_compile patterns =
     list_ex (\<lambda>(pattern, line_num). re_compile pattern = Raised) patterns"

section \<open>A compiler for the examples\<close>

text \<open>A sequence of patterns as one pattern.\<close>

fun seq_list :: "regex list \<Rightarrow> regex" where
  "seq_list [] = Eps"
| "seq_list [a] = a"
| "seq_list (a # b # bs) = Seq a (seq_list (b # bs))"

definition plain_char :: "char \<Rightarrow> bool" where
  "plain_char c = (c \<in> set ''abcdefghijklmnopqrstuvwxyz0123456789-'')"

text \<open>The body of the group of a built-in rule: \<^verbatim>\<open>\.\<close> is a literal dot,
  \<^verbatim>\<open>[^.]+\<close> is one or more characters other than a dot, and a lowercase letter, a
  digit or a hyphen is itself.\<close>

fun parse_atoms :: "string \<Rightarrow> regex list option" where
  "parse_atoms [] = Some []"
| "parse_atoms (c # cs) =
     (if c = backslash then
        (case cs of
           [] \<Rightarrow> None
         | d # ds \<Rightarrow> if d = CHR ''.'' then map_option ((#) (Chr d)) (parse_atoms ds) else None)
      else if c = CHR ''['' then
        (if take 4 cs = ''^.]+''
         then map_option ((#) (Plus (NotIn ''.''))) (parse_atoms (drop 4 cs))
         else None)
      else if plain_char c then map_option ((#) (Chr c)) (parse_atoms cs)
      else None)"

text \<open>
  \<open>re.compile\<close> on the texts of the examples. A text \<^verbatim>\<open>^.+\.(body)$\<close> with a body as
  above compiles to its pattern; \<^verbatim>\<open>a{4294967295}\<close> raises \<open>OverflowError\<close>; every
  other text is answered with \<open>re.error\<close>, which is what \<open>re.compile\<close> does with the
  \<^verbatim>\<open>(unclosed\<close> of the examples, and not with every text.
\<close>

definition example_compile :: "string \<Rightarrow> regex compiled" where
  "example_compile text =
     (let opening = ''^.+'' @ [backslash] @ ''.('';
          closing = '')$'';
          body = take (length text - length opening - length closing) (drop (length opening) text)
      in if text = opening @ body @ closing then
           (case parse_atoms body of
              Some atoms \<Rightarrow>
                Compiled (Seq Bol (Seq (Plus Dot) (Seq (Chr CHR ''.'')
                            (Seq (Grp 1 (seq_list atoms)) Eol))))
            | None \<Rightarrow> ReError)
         else if text = ''a{4294967295}'' then Raised
         else ReError)"

text \<open>The compiled built-in rules, in the order of \<open>default_patterns\<close>.\<close>

definition s3_website_rule :: regex where
  "s3_website_rule =
     Seq Bol (Seq (Plus Dot) (Seq (Chr CHR ''.'')
       (Seq (Grp 1 (seq_list (map Chr ''s3-website-'' @ [Plus (NotIn ''.'')]
                                @ map Chr ''.amazonaws.com''))) Eol)))"

definition builtin_rules :: "regex list" where
  "builtin_rules =
     map suffix_rule
       [''cloudfront.net'', ''amazonaws.com'', ''herokuapp.com'', ''netlify.app'',
        ''vercel.app'', ''github.io'', ''firebaseapp.com'', ''appspot.com'',
        ''azurewebsites.net'', ''cloudflare.com'', ''fastly.com'', ''cdn.com'',
        ''cdn.net'', ''cdn.org'', ''s3.amazonaws.com'']
     @ [s3_website_rule]
     @ map suffix_rule
       [''elasticbeanstalk.com'', ''railway.app'', ''render.com'', ''fly.io'',
        ''digitaloceanspaces.com'', ''bunnycdn.com'', ''stackpathcdn.com'', ''keycdn.com'']"

section \<open>Rules of the examples\<close>

text \<open>The rule \<^verbatim>\<open>^.+\.(suffix)\<close>, without \<open>$\<close>.\<close>

definition prefix_rule :: "string \<Rightarrow> regex" where
  "prefix_rule suffix = Seq Bol (Seq (Plus Dot) (Seq (Chr CHR ''.'') (Grp 1 (lit suffix))))"

text \<open>The rule \<^verbatim>\<open>^(.*)suffix$\<close>.\<close>

definition before_rule :: "string \<Rightarrow> regex" where
  "before_rule suffix = Seq Bol (Seq (Grp 1 (Star Dot)) (Seq (lit suffix) Eol))"

text \<open>The rule \<^verbatim>\<open>^.(.+)$\<close>.\<close>

definition drop_first_rule :: regex where
  "drop_first_rule = Seq Bol (Seq Dot (Seq (Grp 1 (Plus Dot)) Eol))"

text \<open>The URLs of the examples.\<close>

definition example_urls :: "string list" where
  "example_urls =
     [''https://a.b.c.example.com/x'', ''about:blank'', ''http://localhost/'',
      ''https://example.com/'', ''https://example.com/y'', ''ftp://EXAMPLE.COM/'',
      ''https://x.example.org/?q'']"

text \<open>File systems of the examples: one where \<open>/tmp\<close> is a directory, so that it
  exists and reading it raises; one with a rule file whose fourth line does not
  compile; one with no file at all; one with a rule file whose two rules compile; one whose default file has a rule and a line that
  does not compile; one whose default file has no line that compiles; and one whose
  default file has a line on which \<open>re.compile\<close> raises \<open>OverflowError\<close>.\<close>

definition dir_fs :: filesystem where
  "dir_fs path = (if path = ''/tmp'' then Some (ReadFailed []) else None)"

definition rules_lines :: "string list" where
  "rules_lines = [''# rules'', '''', ''  '' @ rule_text (esc ''github.io'') @ '' '', ''(unclosed'']"

definition rules_fs :: filesystem where
  "rules_fs path = (if path = ''rules.txt'' then Some (ReadOk rules_lines) else None)"

definition no_fs :: filesystem where
  "no_fs path = None"

definition good_lines :: "string list" where
  "good_lines = [rule_text (esc ''github.io''), ''# and one more'', rule_text (esc ''cdn.net'')]"

definition good_fs :: filesystem where
  "good_fs path = (if path = ''rules.txt'' then Some (ReadOk good_lines) else None)"

definition default_lines :: "string list" where
  "default_lines = [''# my rules'', rule_text (esc ''github.io''), ''(unclosed'']"

definition default_fs :: filesystem where
  "default_fs path = (if path = ''domain_patterns.txt'' then Some (ReadOk default_lines) else None)"

definition broken_fs :: filesystem where
  "broken_fs path =
     (if path = ''domain_patterns.txt'' then Some (ReadOk [''(unclosed'', ''# nothing else''])
      else None)"

definition overflow_lines :: "string list" where
  "overflow_lines = [rule_text (esc ''github.io''), ''a{4294967295}'']"

definition overflow_fs :: filesystem where
  "overflow_fs path = (if path = ''domain_patterns.txt'' then Some (ReadOk overflow_lines) else None)"

section \<open>Properties of the TLD validation\<close>

lemma takeWhile_less: "c \<in> set xs \<Longrightarrow> length (takeWhile (\<lambda>x. x \<noteq> c) xs) < length xs"
  by (induction xs) auto

lemma take_drop_len: "length (takeWhile P xs) + length (dropWhile P xs) = length xs"
  by (induction xs) auto

lemma drop_tld: 
  assumes a: "CHR ''.'' \<in> set d"
  shows "drop (nat (rfind d CHR ''.'' + 1)) d = after_last_dot d"
proof -
  let ?P = "\<lambda>x. x \<noteq> CHR ''.''"
  let ?t = "takeWhile ?P (rev d)" and ?r = "dropWhile ?P (rev d)"
  have l: "length ?t < length d"
    using takeWhile_less[of "CHR ''.''" "rev d"] a by simp
  have "rev (?t @ ?r) = rev ?r @ rev ?t" by (rule rev_append)
  then have d: "d = rev ?r @ rev ?t" by (simp only: takeWhile_dropWhile_id rev_rev_ident)
  have "length ?t + length ?r = length d"
    using take_drop_len[of ?P "rev d"] by simp
  then have n: "nat (rfind d CHR ''.'' + 1) = length (rev ?r)"
    using a l by (simp add: rfind_def)
  have "drop (length (rev ?r)) (rev ?r @ rev ?t) = rev ?t"
    by simp
  then have "drop (length (rev ?r)) d = rev ?t" using d by simp
  then show ?thesis unfolding after_last_dot_def n .
qed

lemma rfind_last: "CHR ''.'' \<in> set d \<Longrightarrow> (rfind d CHR ''.'' = int (length d) - 1) = (after_last_dot d = [])"
  by (simp add: rfind_def after_last_dot_def)

lemma rfind_neg: "(rfind d c = - 1) = (c \<notin> set d)"
  using takeWhile_less[of c "rev d"] by (auto simp: rfind_def)

lemma alpha_case_n: 
  "(65 \<le> n \<and> n \<le> 90 \<or> 97 \<le> n \<and> n \<le> 122 \<or> n = 170 \<or> n = 181 \<or> n = 186 \<or> 192 \<le> n \<and> n \<le> 214 \<or> 216 \<le> n \<and> n \<le> 246 \<or> 248 \<le> n \<and> n \<le> 255) \<Longrightarrow>
   (97 \<le> n \<and> n \<le> 122 \<or> n = 170 \<or> n = 181 \<or> n = 186 \<or> 223 \<le> n \<and> n \<le> 246 \<or> 248 \<le> n \<and> n \<le> 255) = (\<not> (65 \<le> n \<and> n \<le> 90 \<or> 192 \<le> n \<and> n \<le> 214 \<or> 216 \<le> n \<and> n \<le> (222::nat)))"
  by auto

lemma alpha_case: "chr_isalpha c \<Longrightarrow> chr_islower c = (\<not> chr_isupper c)"
  unfolding chr_isalpha_def chr_islower_def chr_isupper_def in_range_def by (rule alpha_case_n)

lemma lower_alpha: "t \<noteq> [] \<Longrightarrow> list_all chr_isalpha t \<Longrightarrow> str_islower t = (\<not> list_ex chr_isupper t)"
proof (induction t)
  case Nil then show ?case by simp
next
  case (Cons c t)
  then show ?case
    by (cases t) (auto simp: str_islower_def alpha_case)
qed

lemma tld_iff_aux:
  "has_valid_tld d =
     (\<not> (d = [] \<or> length d < 3 \<or> CHR ''.'' \<notin> set d \<or> after_last_dot d = []
          \<or> length (after_last_dot d) < 2 \<or> list_ex (\<lambda>c. \<not> chr_isalpha c) (after_last_dot d)
          \<or> list_ex chr_isupper (after_last_dot d)))"
proof (cases "d = [] \<or> length d < 3 \<or> CHR ''.'' \<notin> set d")
  case True
  then show ?thesis by (auto simp: has_valid_tld_def)
next
  case False
  then have dot: "CHR ''.'' \<in> set d" by simp
  have na: "list_ex (\<lambda>c. \<not> chr_isalpha c) t = (\<not> list_all chr_isalpha t)" for t
    by (simp add: list_ex_iff list_all_iff)
  have code: "has_valid_tld d = (after_last_dot d \<noteq> [] \<and> 2 \<le> length (after_last_dot d)
      \<and> str_islower (after_last_dot d) \<and> str_isalpha (after_last_dot d))"
    using False rfind_last[OF dot] rfind_neg[of d "CHR ''.''"] drop_tld[OF dot]
    by (simp add: has_valid_tld_def Let_def)
  show ?thesis
  proof (cases "after_last_dot d \<noteq> [] \<and> list_all chr_isalpha (after_last_dot d)")
    case True
    then show ?thesis
      using False lower_alpha[of "after_last_dot d"] by (auto simp add: code str_isalpha_def na)
  next
    case nal: False
    then show ?thesis
      using False by (auto simp add: code str_isalpha_def na)
  qed
qed




lemma drop_after_last:
  assumes a: "c \<in> set d"
  shows "drop (nat (rfind d c + 1)) d = after_last c d"
proof -
  let ?P = "\<lambda>x. x \<noteq> c"
  let ?t = "takeWhile ?P (rev d)" and ?r = "dropWhile ?P (rev d)"
  have l: "length ?t < length d"
    using takeWhile_less[of c "rev d"] a by simp
  have "rev (?t @ ?r) = rev ?r @ rev ?t" by (rule rev_append)
  then have d: "d = rev ?r @ rev ?t" by (simp only: takeWhile_dropWhile_id rev_rev_ident)
  have "length ?t + length ?r = length d"
    using take_drop_len[of ?P "rev d"] by simp
  then have n: "nat (rfind d c + 1) = length (rev ?r)"
    using a l by (simp add: rfind_def)
  have "drop (length (rev ?r)) (rev ?r @ rev ?t) = rev ?t"
    by simp
  then have "drop (length (rev ?r)) d = rev ?t" using d by simp
  then show ?thesis unfolding after_last_def n .
qed

lemma rfind_at_end: "c \<in> set d \<Longrightarrow> (rfind d c = int (length d) - 1) = (after_last c d = [])"
  by (simp add: rfind_def after_last_def)

lemma unicode_iff:
  "has_valid_tld_unicode U d =
     (\<not> (d = [] \<or> length d < 3 \<or> full_stop \<notin> set d \<or> after_last full_stop d = []
          \<or> length (after_last full_stop d) < 2
          \<or> list_ex (\<lambda>c. \<not> is_alpha U c) (after_last full_stop d)
          \<or> list_ex (\<lambda>c. is_upper U c \<or> is_title U c) (after_last full_stop d)
          \<or> \<not> list_ex (is_lower U) (after_last full_stop d)))"
proof (cases "d = [] \<or> length d < 3 \<or> full_stop \<notin> set d")
  case True
  then show ?thesis by (auto simp: has_valid_tld_unicode_def)
next
  case False
  then have dot: "full_stop \<in> set d" by simp
  have na: "list_ex (\<lambda>c. \<not> is_alpha U c) t = (\<not> list_all (is_alpha U) t)" for t
    by (simp add: list_ex_iff list_all_iff)
  have nu: "list_ex (\<lambda>c. is_upper U c \<or> is_title U c) t
      = (\<not> list_all (\<lambda>c. \<not> is_upper U c \<and> \<not> is_title U c) t)" for t
    by (simp add: list_ex_iff list_all_iff)
  have code: "has_valid_tld_unicode U d = (after_last full_stop d \<noteq> []
      \<and> 2 \<le> length (after_last full_stop d)
      \<and> ustr_islower U (after_last full_stop d) \<and> ustr_isalpha U (after_last full_stop d))"
    using False rfind_at_end[OF dot] rfind_neg[of d full_stop] drop_after_last[OF dot]
    by (simp add: has_valid_tld_unicode_def Let_def)
  show ?thesis
    using False by (auto simp add: code ustr_isalpha_def ustr_islower_def na nu)
qed

lemma cp_less: "cp c < 256"
  by (simp add: cp_def)

lemma cp_inj: "(cp a = cp b) = (a = b)"
  by (simp add: cp_def)

lemma cp_dot: "cp CHR ''.'' = full_stop"
  by (simp add: cp_def full_stop_def)

lemma py_ucd_latin1:
  "is_alpha py_ucd (cp c) = chr_isalpha c"
  "is_upper py_ucd (cp c) = chr_isupper c"
  "is_title py_ucd (cp c) = False"
  "is_lower py_ucd (cp c) = chr_islower c"
  using cp_less[of c]
  by (auto simp: py_ucd_def chr_isalpha_def chr_isupper_def chr_islower_def in_range_def)

lemma rfind_code_points: "rfind (code_points d) full_stop = rfind d CHR ''.''"
proof -
  have p: "(\<lambda>x. x \<noteq> full_stop) \<circ> cp = (\<lambda>x. x \<noteq> CHR ''.'')"
    by (rule ext) (simp add: cp_dot[symmetric] cp_inj)
  have "takeWhile (\<lambda>x. x \<noteq> full_stop) (rev (map cp d))
      = map cp (takeWhile (\<lambda>x. x \<noteq> CHR ''.'') (rev d))"
    by (simp only: rev_map takeWhile_map p)
  moreover have "(full_stop \<in> set (map cp d)) = (CHR ''.'' \<in> set d)"
    by (auto simp: cp_dot[symmetric] cp_inj)
  ultimately show ?thesis by (simp add: rfind_def code_points_def)
qed

lemma islower_code_points: "ustr_islower py_ucd (map cp t) = str_islower t"
  by (simp add: ustr_islower_def str_islower_def list_all_iff list_ex_iff py_ucd_latin1)

lemma isalpha_code_points: "ustr_isalpha py_ucd (map cp t) = str_isalpha t"
  by (simp add: ustr_isalpha_def str_isalpha_def list_all_iff py_ucd_latin1)

lemma has_valid_tld_code_points:
  "has_valid_tld_unicode py_ucd (code_points d) = has_valid_tld d"
proof -
  have m: "(full_stop \<in> set (code_points d)) = (CHR ''.'' \<in> set d)"
    by (auto simp: code_points_def cp_dot[symmetric] cp_inj)
  have dr: "drop n (code_points d) = map cp (drop n d)" for n
    by (simp add: code_points_def drop_map)
  have e: "(code_points d = []) = (d = [])" "length (code_points d) = length d"
    by (simp_all add: code_points_def)
  show ?thesis
    unfolding has_valid_tld_unicode_def has_valid_tld_def
    by (simp add: m e rfind_code_points dr islower_code_points isalpha_code_points Let_def)
qed

lemma has_valid_tld_latin1:
  "has_valid_tld d =
     (\<not> (d = [] \<or> length d < 3 \<or> CHR ''.'' \<notin> set d \<or> after_last_dot d = []
          \<or> length (after_last_dot d) < 2 \<or> list_ex (\<lambda>c. \<not> chr_isalpha c) (after_last_dot d)
          \<or> list_ex chr_isupper (after_last_dot d)))"
  by (rule tld_iff_aux)

lemma ideograph_tld: "after_last full_stop ideograph_domain = [0x4E2D, 0x56FD]"
  by (simp add: after_last_def ideograph_domain_def full_stop_def)

lemma titlecase_tld: "after_last full_stop titlecase_domain = [0x1C5, 0x1C5]"
  by (simp add: after_last_def titlecase_domain_def full_stop_def)

text \<open>
  C5, as the code has it. For every string \<open>d\<close>, and whatever the Unicode database
  says, \<open>has_valid_tld\<close> is false exactly when \<open>d\<close> is empty, or shorter than 3
  characters, or has no dot, or the substring after its last dot is empty, shorter than
  2 characters, has a non-alphabetic character, has an uppercase or titlecase character,
  or has no lowercase character. On the strings of code points 0 to 255 this is the
  \<open>has_valid_tld\<close> of the batch loop. \<open>example.com\<close> is valid; \<open>example.c1\<close>,
  \<open>EXAMPLE.COM\<close> and \<open>noTLD\<close> are not.
\<close>

theorem has_valid_tld_unicode_spec:
  "has_valid_tld_unicode U d =
     (\<not> (d = [] \<or> length d < 3 \<or> full_stop \<notin> set d \<or> after_last full_stop d = []
          \<or> length (after_last full_stop d) < 2
          \<or> list_ex (\<lambda>c. \<not> is_alpha U c) (after_last full_stop d)
          \<or> list_ex (\<lambda>c. is_upper U c \<or> is_title U c) (after_last full_stop d)
          \<or> \<not> list_ex (is_lower U) (after_last full_stop d)))
   \<and> has_valid_tld_unicode py_ucd (code_points s) = has_valid_tld s
   \<and> has_valid_tld_unicode py_ucd (code_points ''example.com'')
   \<and> \<not> has_valid_tld_unicode py_ucd (code_points ''example.c1'')
   \<and> \<not> has_valid_tld_unicode py_ucd (code_points ''EXAMPLE.COM'')
   \<and> \<not> has_valid_tld_unicode py_ucd (code_points ''noTLD'')"
proof -
  have "has_valid_tld ''example.com''" by code_simp
  moreover have "\<not> has_valid_tld ''example.c1''" by code_simp
  moreover have "\<not> has_valid_tld ''EXAMPLE.COM''" by code_simp
  moreover have "\<not> has_valid_tld ''noTLD''" by code_simp
  ultimately show ?thesis
    using unicode_iff[of U d] by (simp only: has_valid_tld_code_points simp_thms)
qed

theorem has_valid_tld_unicode_spec_witness:
  "\<not> has_valid_tld_unicode py_ucd ideograph_domain
   \<and> after_last full_stop ideograph_domain = [0x4E2D, 0x56FD]
   \<and> \<not> list_ex (is_lower py_ucd) (after_last full_stop ideograph_domain)
   \<and> has_valid_tld_unicode py_ucd (code_points ''a.io'')"
proof -
  have l: "\<not> list_ex (is_lower py_ucd) (after_last full_stop ideograph_domain)"
    by (simp add: ideograph_tld py_ucd_def)
  have v: "has_valid_tld ''a.io''" by code_simp
  from has_valid_tld_unicode_spec[of py_ucd ideograph_domain "''a.io''"] l v ideograph_tld
  show ?thesis by blast
qed

text \<open>
  C5, as stated, fails. The domain \<open>a.\<close> followed by the two ideographs U+4E2D U+56FD
  is rejected although none of the seven conditions of the claim holds of it: the
  substring after its last dot has two characters, both alphabetic and neither
  uppercase, and \<open>islower\<close> is false of it because it has no lowercase character. The
  same holds of \<open>a.\<close> followed by the titlecase letter U+01C5 twice, where \<open>islower\<close>
  is false because of a titlecase character.
\<close>

theorem has_valid_tld_counterexample:
  "\<not> has_valid_tld_unicode py_ucd ideograph_domain
   \<and> \<not> (ideograph_domain = [] \<or> length ideograph_domain < 3
          \<or> full_stop \<notin> set ideograph_domain
          \<or> after_last full_stop ideograph_domain = []
          \<or> length (after_last full_stop ideograph_domain) < 2
          \<or> list_ex (\<lambda>c. \<not> is_alpha py_ucd c) (after_last full_stop ideograph_domain)
          \<or> list_ex (is_upper py_ucd) (after_last full_stop ideograph_domain))
   \<and> \<not> has_valid_tld_unicode py_ucd titlecase_domain
   \<and> \<not> (titlecase_domain = [] \<or> length titlecase_domain < 3
          \<or> full_stop \<notin> set titlecase_domain
          \<or> after_last full_stop titlecase_domain = []
          \<or> length (after_last full_stop titlecase_domain) < 2
          \<or> list_ex (\<lambda>c. \<not> is_alpha py_ucd c) (after_last full_stop titlecase_domain)
          \<or> list_ex (is_upper py_ucd) (after_last full_stop titlecase_domain))"
proof -
  have i: "\<not> has_valid_tld_unicode py_ucd ideograph_domain"
    by (simp add: unicode_iff ideograph_tld py_ucd_def)
  have t: "\<not> has_valid_tld_unicode py_ucd titlecase_domain"
    by (simp add: unicode_iff titlecase_tld py_ucd_def)
  have ic: "\<not> (ideograph_domain = [] \<or> length ideograph_domain < 3
          \<or> full_stop \<notin> set ideograph_domain
          \<or> after_last full_stop ideograph_domain = []
          \<or> length (after_last full_stop ideograph_domain) < 2
          \<or> list_ex (\<lambda>c. \<not> is_alpha py_ucd c) (after_last full_stop ideograph_domain)
          \<or> list_ex (is_upper py_ucd) (after_last full_stop ideograph_domain))"
    unfolding ideograph_tld by (simp add: ideograph_domain_def full_stop_def py_ucd_def)
  have tc: "\<not> (titlecase_domain = [] \<or> length titlecase_domain < 3
          \<or> full_stop \<notin> set titlecase_domain
          \<or> after_last full_stop titlecase_domain = []
          \<or> length (after_last full_stop titlecase_domain) < 2
          \<or> list_ex (\<lambda>c. \<not> is_alpha py_ucd c) (after_last full_stop titlecase_domain)
          \<or> list_ex (is_upper py_ucd) (after_last full_stop titlecase_domain))"
    unfolding titlecase_tld by (simp add: titlecase_domain_def full_stop_def py_ucd_def)
  from i ic t tc show ?thesis by (intro conjI)
qed

section \<open>Properties of the normalization\<close>

lemma split_on_nonempty: "split_on c s \<noteq> []"
  by (induction s) (auto split: list.splits)

lemma length_split_on: "length (split_on c s) = Suc (count_list s c)"
  by (induction s) (auto split: list.splits simp: split_on_nonempty)

lemma split_on_parts: "p \<in> set (split_on c s) \<Longrightarrow> c \<notin> set p"
  by (induction s arbitrary: p) (auto split: list.splits if_splits)

lemma join_split: "join_with c (split_on c s) = s"
proof (induction s)
  case Nil then show ?case by simp
next
  case (Cons x s)
  obtain y ys where y: "split_on c s = y # ys"
    using split_on_nonempty[of c s] by (cases "split_on c s") auto
  show ?case using Cons y by (cases ys) auto
qed

lemma split_append_part: "c \<notin> set p \<Longrightarrow> split_on c (p @ c # s) = p # split_on c s"
  by (induction p) auto

lemma split_single: "c \<notin> set p \<Longrightarrow> split_on c p = [p]"
  by (induction p) auto

lemma split_join: "ps \<noteq> [] \<Longrightarrow> (\<And>p. p \<in> set ps \<Longrightarrow> c \<notin> set p) \<Longrightarrow> split_on c (join_with c ps) = ps"
proof (induction c ps rule: join_with.induct)
  case (1 c) then show ?case by simp
next
  case (2 c p) then show ?case by (simp add: split_single)
next
  case (3 c p q ps)
  then show ?case by (simp add: split_append_part)
qed

lemma join_append: "xs \<noteq> [] \<Longrightarrow> ys \<noteq> [] \<Longrightarrow> join_with c (xs @ ys) = join_with c xs @ c # join_with c ys"
proof (induction c xs rule: join_with.induct)
  case (1 c) then show ?case by simp
next
  case (2 c p) then show ?case by (cases ys) auto
next
  case (3 c p q ps) then show ?case by simp
qed

lemma truncation_parts:
  assumes "2 < count_list d c"
  defines "parts \<equiv> split_on c d"
  defines "r \<equiv> join_with c (drop (length parts - 3) parts)"
  shows "split_on c r = drop (length parts - 3) parts"
    and "length (split_on c r) = 3"
    and "\<exists>pre. d = pre @ c # r"
    and "count_list r c = 2"
proof -
  have len: "length parts = Suc (count_list d c)" by (simp add: parts_def length_split_on)
  then have k: "0 < length parts - 3" "length parts - 3 < length parts" using assms(1) by auto
  have ne: "drop (length parts - 3) parts \<noteq> []" using k by simp
  have np: "\<And>p. p \<in> set (drop (length parts - 3) parts) \<Longrightarrow> c \<notin> set p"
    using split_on_parts[of _ c d] in_set_dropD unfolding parts_def by fastforce
  show s: "split_on c r = drop (length parts - 3) parts"
    unfolding r_def by (rule split_join[OF ne np])
  show l: "length (split_on c r) = 3" using s len assms(1) by simp
  have "take (length parts - 3) parts \<noteq> []" using k by auto
  from join_append[OF this ne, of c]
  have "join_with c parts = join_with c (take (length parts - 3) parts) @ c # r"
    by (simp add: r_def)
  then show "\<exists>pre. d = pre @ c # r" by (auto simp: parts_def join_split)
  show "count_list r c = 2" using l by (simp add: length_split_on)
qed

lemma normalize_empty_rules:
  "normalize_domain d [] =
     Some (if 2 < count_list d CHR ''.''
           then join_with CHR ''.'' (drop (length (split_on CHR ''.'' d) - 3) (split_on CHR ''.'' d))
           else d)"
  by (auto simp: normalize_domain_def Let_def)

lemma normalize_via_truncation:
  "normalize_domain d ps =
     (case normalize_domain d [] of
        None \<Rightarrow> None
      | Some t \<Rightarrow> if d = [] \<or> ps = [] then Some t else apply_pattern_normalization t ps)"
  by (auto simp: normalize_domain_def Let_def)

text \<open>
  C6. Structural truncation: with an empty rule list the normalizer returns the domain
  itself when it has at most two dots, and otherwise the last three labels joined by
  dots: the result then splits into exactly the last three labels of the domain and is
  the part of the domain after a dot. With rules, the rule step runs on this truncated
  domain. \<open>normalize("a.b.c.d.e", [])\<close> is \<open>"c.d.e"\<close>.
\<close>

theorem structural_truncation:
  "normalize_domain d [] =
     Some (if 2 < count_list d CHR ''.''
           then join_with CHR ''.'' (drop (length (split_on CHR ''.'' d) - 3) (split_on CHR ''.'' d))
           else d)
   \<and> (2 < count_list d CHR ''.'' \<longrightarrow>
        (\<exists>r pre. normalize_domain d [] = Some r
           \<and> split_on CHR ''.'' r = drop (length (split_on CHR ''.'' d) - 3) (split_on CHR ''.'' d)
           \<and> length (split_on CHR ''.'' r) = 3
           \<and> d = pre @ CHR ''.'' # r))
   \<and> normalize_domain d ps =
        (case normalize_domain d [] of
           None \<Rightarrow> None
         | Some t \<Rightarrow> if d = [] \<or> ps = [] then Some t else apply_pattern_normalization t ps)
   \<and> normalize_domain ''a.b.c.d.e'' [] = Some ''c.d.e''"
proof -
  have ex: "normalize_domain ''a.b.c.d.e'' [] = Some ''c.d.e''" by code_simp
  have tr: "2 < count_list d CHR ''.'' \<longrightarrow>
        (\<exists>r pre. normalize_domain d [] = Some r
           \<and> split_on CHR ''.'' r = drop (length (split_on CHR ''.'' d) - 3) (split_on CHR ''.'' d)
           \<and> length (split_on CHR ''.'' r) = 3
           \<and> d = pre @ CHR ''.'' # r)"
  proof
    assume a: "2 < count_list d CHR ''.''"
    from truncation_parts[OF a] a show "\<exists>r pre. normalize_domain d [] = Some r
           \<and> split_on CHR ''.'' r = drop (length (split_on CHR ''.'' d) - 3) (split_on CHR ''.'' d)
           \<and> length (split_on CHR ''.'' r) = 3
           \<and> d = pre @ CHR ''.'' # r"
      by (simp add: normalize_empty_rules)
  qed
  show ?thesis using ex tr normalize_empty_rules[of d] normalize_via_truncation[of d ps] by blast
qed

theorem structural_truncation_witness:
  "2 < count_list ''a.b.c.d.e'' CHR ''.'' \<and> (\<exists>r pre. normalize_domain ''a.b.c.d.e'' [] = Some r \<and> length (split_on CHR ''.'' r) = 3 \<and> ''a.b.c.d.e'' = pre @ CHR ''.'' # r)"
proof -
  have h: "2 < count_list ''a.b.c.d.e'' CHR ''.''" by code_simp
  from structural_truncation[of "''a.b.c.d.e''" "[]"] h show ?thesis by blast
qed

text \<open>
  C4, as the code has it. The rule step returns \<open>group(1)\<close> of the first pattern of
  the list for which \<open>match\<close> succeeds, at the start of the domain, with a non-empty
  \<open>groups()\<close> tuple, whatever that group holds (also the empty string or \<open>None\<close>),
  and the domain unchanged when there is no such pattern. With the single rule
  \<^verbatim>\<open>^.+\.(cloudfront\.net)$\<close>, \<open>x.y.cloudfront.net\<close> becomes \<open>cloudfront.net\<close>.
\<close>

theorem rule_step_first_match:
  "apply_pattern_normalization d ps =
     (case List.find (match_with_groups d) ps of None \<Rightarrow> Some d | Some p \<Rightarrow> group1 d p)
   \<and> normalize_domain ''x.y.cloudfront.net'' [re_match (suffix_rule ''cloudfront.net'')] = Some ''cloudfront.net''"
proof -
  have a: "apply_pattern_normalization d ps =
     (case List.find (match_with_groups d) ps of None \<Rightarrow> Some d | Some p \<Rightarrow> group1 d p)"
    by (induction ps) (auto simp: match_with_groups_def group1_def split: option.splits list.splits)
  have b: "normalize_domain ''x.y.cloudfront.net'' [re_match (suffix_rule ''cloudfront.net'')] = Some ''cloudfront.net''"
    by code_simp
  show ?thesis using a b by (rule conjI)
qed

text \<open>
  C4, as stated, fails. The rule \<^verbatim>\<open>^.+\.(github\.io)\<close> does not match
  \<open>a.github.iox\<close> from start to end, yet the code rewrites that domain to \<open>github.io\<close>,
  where the stated rule step leaves it unchanged. The rule \<^verbatim>\<open>^(.*)example\.com$\<close>
  matches \<open>example.com\<close> with an empty first group, and the code returns the empty
  string, where the stated rule step leaves the domain unchanged.
\<close>

theorem rule_step_counterexample:
  "apply_pattern_normalization ''a.github.iox'' [re_match (prefix_rule ''github.io'')] = Some ''github.io''
   \<and> spec_rule_step ''a.github.iox'' [prefix_rule ''github.io''] = ''a.github.iox''
   \<and> apply_pattern_normalization ''example.com'' [re_match (before_rule ''example.com'')] = Some ''''
   \<and> spec_rule_step ''example.com'' [before_rule ''example.com''] = ''example.com''"
  by code_simp

text \<open>
  C7, as stated, fails. With the single rule \<^verbatim>\<open>^.(.+)$\<close>, the domain \<open>bc.com\<close> has
  two labels and is the result of normalizing \<open>abc.com\<close>, yet normalizing it gives
  \<open>c.com\<close> and normalizing that gives \<open>.com\<close>.
\<close>

theorem idempotence_counterexample:
  "normalize_domain ''abc.com'' [re_match drop_first_rule] = Some ''bc.com''
   \<and> normalize_domain ''bc.com'' [re_match drop_first_rule] = Some ''c.com''
   \<and> normalize_val (normalize_domain ''bc.com'' [re_match drop_first_rule]) [re_match drop_first_rule] = Some ''.com''
   \<and> count_list ''bc.com'' CHR ''.'' \<le> 2"
  by code_simp

text \<open>
  C7, as the code has it. A domain with at most three labels that the rule step returns
  unchanged is a fixed point of the normalizer, so normalizing it twice is normalizing
  it once; and with an empty rule list normalizing twice is normalizing once for every
  domain.
\<close>

theorem normalize_fixed_point:
  "(count_list d CHR ''.'' \<le> 2 \<and> apply_pattern_normalization d R = Some d \<longrightarrow>
      normalize_domain d R = Some d
      \<and> normalize_val (normalize_domain d R) R = normalize_domain d R)
   \<and> normalize_val (normalize_domain d []) [] = normalize_domain d []"
proof -
  have fp: "normalize_domain d R = Some d"
    if "count_list d CHR ''.'' \<le> 2" "apply_pattern_normalization d R = Some d"
    using that by (auto simp: normalize_domain_def Let_def)
  have st: "normalize_val (normalize_domain d []) [] = normalize_domain d []"
  proof (cases "2 < count_list d CHR ''.''")
    case True
    from truncation_parts(4)[OF True] True show ?thesis
      by (simp add: normalize_empty_rules)
  next
    case False
    then show ?thesis by (simp add: normalize_empty_rules)
  qed
  show ?thesis using fp st by simp
qed

theorem normalize_fixed_point_witness:
  "count_list ''example.com'' CHR ''.'' \<le> 2
   \<and> apply_pattern_normalization ''example.com'' [re_match (suffix_rule ''github.io'')] = Some ''example.com''
   \<and> normalize_domain ''example.com'' [re_match (suffix_rule ''github.io'')] = Some ''example.com''"
proof -
  have h: "count_list ''example.com'' CHR ''.'' \<le> 2
   \<and> apply_pattern_normalization ''example.com'' [re_match (suffix_rule ''github.io'')] = Some ''example.com''"
    by code_simp
  from normalize_fixed_point[of "''example.com''" "[re_match (suffix_rule ''github.io'')]"] h show ?thesis by blast
qed


section \<open>Properties of the batches and of the merge\<close>

lemma process_url_effect:
  "process_url netloc ps r u = effect (classify netloc ps u) r"
  by (simp add: process_url_def classify_def counter_incr_def split: option.splits)

lemma counter_update_assoc:
  "counter_update (counter_update a b) c = counter_update a (counter_update b c)"
  by (rule ext) (simp add: counter_update_def counter_get_def split: option.splits)

lemma counter_update_comm: "counter_update a b = counter_update b a"
  by (rule ext) (simp add: counter_update_def counter_get_def split: option.splits)

lemma counter_update_empty: "counter_update m Map.empty = m" "counter_update Map.empty m = m"
  by (rule ext, simp add: counter_update_def counter_get_def split: option.splits)+

lemma merge_assoc: "merge (merge a b) c = merge a (merge b c)"
  by (simp add: merge_def counter_update_assoc Un_assoc)

lemma merge_comm: "merge a b = merge b a"
  by (simp add: merge_def counter_update_comm[of "counts a"] Un_commute)

lemma merge_empty: "merge r empty_result = r" "merge empty_result r = r"
  by (simp_all add: merge_def empty_result_def counter_update_empty)

lemma effect_merge: "effect out r = merge r (effect out empty_result)"
proof (cases out)
  case (Counted d)
  have "(counts r)(d \<mapsto> counter_get (counts r) d + 1) =
        counter_update (counts r) (Map.empty(d \<mapsto> counter_get Map.empty d + 1))"
    by (rule ext) (simp add: counter_update_def counter_get_def)
  then show ?thesis using Counted by (simp add: merge_def empty_result_def)
qed (simp_all add: merge_def empty_result_def counter_update_empty)

lemma foldl_process_url:
  "foldl (process_url netloc ps) r us = merge r (foldl (process_url netloc ps) empty_result us)"
proof (induction us arbitrary: r)
  case Nil
  then show ?case by (simp add: merge_empty)
next
  case (Cons u us)
  let ?c = "effect (classify netloc ps u) empty_result"
  let ?F = "foldl (process_url netloc ps) empty_result us"
  have s1: "process_url netloc ps r u = merge r ?c"
    using effect_merge[of "classify netloc ps u" r] by (simp only: process_url_effect)
  have s2: "process_url netloc ps empty_result u = ?c"
    by (simp only: process_url_effect)
  have "foldl (process_url netloc ps) r (u # us) = foldl (process_url netloc ps) (merge r ?c) us"
    by (simp only: foldl_Cons s1)
  also have "\<dots> = merge (merge r ?c) ?F" by (rule Cons)
  finally have a: "foldl (process_url netloc ps) r (u # us) = merge (merge r ?c) ?F" .
  have "foldl (process_url netloc ps) empty_result (u # us) = foldl (process_url netloc ps) ?c us"
    by (simp only: foldl_Cons s2)
  also have "\<dots> = merge ?c ?F" by (rule Cons)
  finally have b: "foldl (process_url netloc ps) empty_result (u # us) = merge ?c ?F" .
  show ?case by (simp only: a b merge_assoc)
qed

lemma batch_append:
  "process_url_batch netloc (xs @ ys) ps =
     merge (process_url_batch netloc xs ps) (process_url_batch netloc ys ps)"
  unfolding process_url_batch_def foldl_append
  by (rule foldl_process_url)

lemma batch_snoc:
  "process_url_batch netloc (xs @ [u]) ps =
     effect (classify netloc ps u) (process_url_batch netloc xs ps)"
  by (simp add: process_url_batch_def process_url_effect)

lemma merge_batches_perm:
  assumes "mset order1 = mset order2"
  shows "merge_batches netloc bs urls ps order1 = merge_batches netloc bs urls ps order2"
proof -
  let ?f = "\<lambda>n r. merge r (process_url_batch netloc (batch_slice bs urls n) ps)"
  have comm: "?f x \<circ> ?f y = ?f y \<circ> ?f x" for x y
    by (rule ext) (simp add: merge_assoc merge_comm[of "process_url_batch netloc (batch_slice bs urls x) ps"])
  have "fold ?f order1 = fold ?f order2"
    by (rule fold_multiset_equiv[OF _ assms]) (rule comm)
  then show ?thesis by (simp add: merge_batches_def foldl_conv_fold)
qed

lemma slice_step:
  "take (n * bs) urls @ batch_slice bs urls n = take (Suc n * bs) urls"
proof -
  have "batch_slice bs urls n = take bs (drop (n * bs) urls)"
    by (simp add: batch_slice_def Let_def min_def)
  moreover have "Suc n * bs = n * bs + bs" by simp
  ultimately show ?thesis by (simp only: take_add)
qed

lemma merge_batches_prefix:
  "merge_batches netloc bs urls ps [0 ..< n] = process_url_batch netloc (take (n * bs) urls) ps"
proof (induction n)
  case 0
  then show ?case by (simp add: merge_batches_def process_url_batch_def)
next
  case (Suc n)
  have "merge_batches netloc bs urls ps [0 ..< Suc n] =
        merge (merge_batches netloc bs urls ps [0 ..< n])
              (process_url_batch netloc (batch_slice bs urls n) ps)"
    by (simp add: merge_batches_def)
  also have "\<dots> = process_url_batch netloc (take (n * bs) urls @ batch_slice bs urls n) ps"
    by (simp add: Suc batch_append)
  finally show ?case by (simp only: slice_step)
qed

lemma total_covers: "0 < bs \<Longrightarrow> length urls \<le> total_batches bs urls * bs"
proof -
  assume b: "0 < bs"
  have "length urls + bs - 1 < ((length urls + bs - 1) div bs) * bs + bs"
    using b by (metis div_mult_mod_eq mod_less_divisor add_less_cancel_left)
  then show ?thesis using b by (simp add: total_batches_def)
qed

lemma sequential_whole:
  "0 < bs \<Longrightarrow> merge_batches netloc bs urls ps [0 ..< total_batches bs urls] = process_url_batch netloc urls ps"
  using total_covers[of bs urls] by (simp add: merge_batches_prefix)

lemma run_batches_whole:
  assumes "0 < bs" "mset completion = mset [0 ..< total_batches bs urls]"
    and "1 \<le> (case max_workers of None \<Rightarrow> min cpu_count 8 | Some w \<Rightarrow> w)"
  shows "run_batches netloc bs urls ps max_workers cpu_count completion = Inr (process_url_batch netloc urls ps)"
proof -
  have "merge_batches netloc bs urls ps completion = process_url_batch netloc urls ps"
    using merge_batches_perm[OF assms(2)] sequential_whole[OF assms(1)] by simp
  then show ?thesis
    using assms sequential_whole[OF assms(1), of netloc urls ps]
    by (auto simp: run_batches_def Let_def total_batches_def)
qed

lemma run_batches_result:
  assumes "run_batches netloc bs urls ps max_workers cpu_count completion = Inr r"
    and "mset completion = mset [0 ..< total_batches bs urls]"
  shows "r = process_url_batch netloc urls ps"
proof -
  have b: "0 < bs" using assms(1) by (auto simp: run_batches_def split: if_splits)
  have "merge_batches netloc bs urls ps completion = process_url_batch netloc urls ps"
    using merge_batches_perm[OF assms(2)] sequential_whole[OF b] by simp
  then show ?thesis
    using assms(1) b sequential_whole[OF b, of netloc urls ps]
    by (auto simp: run_batches_def Let_def total_batches_def split: if_splits)
qed

lemma extract_result:
  assumes "extract_domains_from_urls netloc (Some urls) ps max_workers cpu_count completion = Inr r"
    and "mset completion = mset [0 ..< total_batches batch_size urls]"
  shows "r = process_url_batch netloc urls ps"
  using assms run_batches_result[of netloc batch_size urls ps max_workers cpu_count completion r]
  by (simp add: extract_domains_from_urls_def)

lemma classify_skipped: "(classify netloc ps u = Skipped) = (\<not> has_host netloc u)"
  by (simp add: classify_def has_host_def split: option.splits)

lemma sum_counts_incr:
  assumes "finite (dom m)"
  shows "sum_counts (m(d \<mapsto> counter_get m d + 1)) = sum_counts m + 1"
proof -
  define m' where "m' = m(d \<mapsto> counter_get m d + 1)"
  have at_d: "counter_get m' d = counter_get m d + 1"
    by (simp add: m'_def counter_get_def)
  have off_d: "counter_get m' k = counter_get m k" if "k \<noteq> d" for k
    using that by (simp add: m'_def counter_get_def)
  have rest: "(\<Sum>k \<in> dom m - {d}. counter_get m' k) = (\<Sum>k \<in> dom m - {d}. counter_get m k)"
    by (rule sum.cong) (simp_all add: off_d)
  have dm: "dom m' = insert d (dom m)" by (simp add: m'_def)
  have fin: "finite (dom m - {d})" using assms by simp
  have "insert d (dom m) = insert d (dom m - {d})" by auto
  then have "sum_counts m' = (\<Sum>k \<in> insert d (dom m - {d}). counter_get m' k)"
    by (simp only: sum_counts_def dm)
  also have "\<dots> = counter_get m' d + (\<Sum>k \<in> dom m - {d}. counter_get m' k)"
    using fin by (simp only: sum.insert[OF fin] Diff_iff singletonI not_True_eq_False simp_thms)
  finally have new: "sum_counts m' = counter_get m d + 1 + (\<Sum>k \<in> dom m - {d}. counter_get m k)"
    by (simp only: at_d rest)
  have old: "sum_counts m = (if d \<in> dom m then counter_get m d else 0) + (\<Sum>k \<in> dom m - {d}. counter_get m k)"
    unfolding sum_counts_def using assms by (simp add: sum.remove)
  have "d \<notin> dom m \<Longrightarrow> counter_get m d = 0"
    by (auto simp: counter_get_def split: option.splits)
  then have "sum_counts m = counter_get m d + (\<Sum>k \<in> dom m - {d}. counter_get m k)"
    using old by (cases "d \<in> dom m") simp_all
  with new show ?thesis unfolding m'_def by linarith
qed

lemma counter_get_nonneg:
  "consistent r \<Longrightarrow> 0 \<le> counter_get (counts r) k"
proof (cases "k \<in> dom (counts r)")
  case True
  assume "consistent r"
  then have "1 \<le> counter_get (counts r) k" using True by (simp add: consistent_def)
  then show ?thesis by linarith
next
  case False
  then show ?thesis by (auto simp: counter_get_def split: option.splits)
qed

lemma batch_conservation:
  "finite (dom (counts (process_url_batch netloc urls ps))) \<and>
   sum_counts (counts (process_url_batch netloc urls ps)) + removed (process_url_batch netloc urls ps)
     = int (length (filter (has_host netloc) urls))"
proof (induction urls rule: rev_induct)
  case Nil
  then show ?case by (simp add: process_url_batch_def empty_result_def sum_counts_def)
next
  case (snoc u urls)
  let ?r = "process_url_batch netloc urls ps"
  show ?case
  proof (cases "classify netloc ps u")
    case Skipped
    then show ?thesis using snoc classify_skipped[of netloc ps u] by (simp add: batch_snoc)
  next
    case RejectedRaw
    then show ?thesis using snoc classify_skipped[of netloc ps u] by (simp add: batch_snoc)
  next
    case RejectedNormalized
    then show ?thesis using snoc classify_skipped[of netloc ps u] by (simp add: batch_snoc)
  next
    case (Counted d)
    have "sum_counts ((counts ?r)(d \<mapsto> counter_get (counts ?r) d + 1)) = sum_counts (counts ?r) + 1"
      using snoc by (intro sum_counts_incr) simp
    then show ?thesis using Counted snoc classify_skipped[of netloc ps u]
      by (simp add: batch_snoc del: fun_upd_apply)
  qed
qed

lemma consistent_empty: "consistent empty_result"
  by (simp add: consistent_def empty_result_def)

lemma consistent_effect: "consistent r \<Longrightarrow> consistent (effect out r)"
proof (cases out)
  case (Counted d)
  assume c: "consistent r"
  have n: "0 \<le> counter_get (counts r) d" using c by (rule counter_get_nonneg)
  have "1 \<le> counter_get ((counts r)(d \<mapsto> counter_get (counts r) d + 1)) k"
    if "k \<in> insert d (dom (counts r))" for k
  proof (cases "k = d")
    case True then show ?thesis using n by (simp add: counter_get_def)
  next
    case False
    then have "k \<in> dom (counts r)" using that by simp
    then have "1 \<le> counter_get (counts r) k" using c by (simp add: consistent_def)
    then show ?thesis using False by (simp add: counter_get_def)
  qed
  then show ?thesis using c Counted by (simp add: consistent_def)
qed (simp_all add: consistent_def)

lemma consistent_batch: "consistent (process_url_batch netloc urls ps)"
proof (induction urls rule: rev_induct)
  case Nil
  then show ?case by (simp add: process_url_batch_def consistent_empty)
next
  case (snoc u urls)
  then show ?case by (simp only: batch_snoc consistent_effect)
qed

lemma dom_counter_update: "dom (counter_update a b) = dom a \<union> dom b"
  by (auto simp: counter_update_def split: option.splits)

lemma consistent_merge:
  assumes "consistent a" "consistent b"
  shows "consistent (merge a b)"
proof -
  have ge: "1 \<le> counter_get (counter_update (counts a) (counts b)) k"
    if "k \<in> dom (counts a) \<union> dom (counts b)" for k
  proof (cases "counts b k")
    case None
    then have "k \<in> dom (counts a)" using that by auto
    then show ?thesis using assms(1) None by (auto simp: consistent_def counter_update_def counter_get_def)
  next
    case (Some c)
    then have "k \<in> dom (counts b)" by auto
    then have "1 \<le> counter_get (counts b) k" using assms(2) by (simp add: consistent_def)
    then have c: "1 \<le> c" using Some by (simp add: counter_get_def)
    have "0 \<le> counter_get (counts a) k" using assms(1) by (rule counter_get_nonneg)
    then show ?thesis using c Some by (simp add: counter_update_def counter_get_def)
  qed
  show ?thesis
    using assms ge by (simp add: consistent_def merge_def dom_counter_update)
qed

text \<open>
  C1. Conservation: in the result of a batch, and in the final result of
  \<open>extract_domains_from_urls\<close>, the sum of all counts plus the rejected count is the
  number of input URLs whose extracted host is non-empty; a URL whose extraction fails
  or whose host is empty adds to neither.
\<close>

theorem conservation:
  "sum_counts (counts (process_url_batch netloc urls ps)) + removed (process_url_batch netloc urls ps)
     = int (length (filter (has_host netloc) urls))
   \<and> (extract_domains_from_urls netloc (Some urls) ps max_workers cpu_count completion = Inr r
        \<and> mset completion = mset [0 ..< total_batches batch_size urls]
      \<longrightarrow> sum_counts (counts r) + removed r = int (length (filter (has_host netloc) urls)))"
  using batch_conservation[of netloc urls ps]
    extract_result[of netloc urls ps max_workers cpu_count completion r]
  by blast

theorem conservation_witness:
  "\<exists>r. extract_domains_from_urls example_netloc (Some example_urls) [] None 4 [0] = Inr r
       \<and> mset [0] = mset [0 ..< total_batches batch_size example_urls]
       \<and> sum_counts (counts r) + removed r = 6"
proof -
  let ?r = "merge_batches example_netloc batch_size example_urls [] [0 ..< 1]"
  have t: "total_batches batch_size example_urls = 1"
    by (simp add: total_batches_def batch_size_def example_urls_def)
  have n: "int (length (filter (has_host example_netloc) example_urls)) = 6" by code_simp
  have e: "extract_domains_from_urls example_netloc (Some example_urls) [] None 4 [0] = Inr ?r"
    using t by (simp add: extract_domains_from_urls_def run_batches_def total_batches_def batch_size_def)
  have m: "mset [0] = mset [0 ..< total_batches batch_size example_urls]"
    by (simp add: t)
  from conservation[of example_netloc example_urls "[]" None 4 "[0]" ?r] e m n
  have "sum_counts (counts ?r) + removed ?r = 6" by simp
  with e m show ?thesis by blast
qed

text \<open>
  C2. Merge invariance: the merge is commutative and associative; merging the batches in
  any completion order gives what merging them in order gives; and for every positive
  batch size, every worker count of at least 1 and every completion order, the run
  returns the result of processing the whole URL sequence as one batch, so two runs on
  the same URLs and rules agree whatever their batch sizes, worker counts and
  completion orders are.
\<close>

theorem merge_invariance:
  "merge a b = merge b a
   \<and> merge (merge a b) c = merge a (merge b c)
   \<and> (mset completion = mset [0 ..< total_batches bs urls] \<longrightarrow>
        merge_batches netloc bs urls ps completion
          = merge_batches netloc bs urls ps [0 ..< total_batches bs urls])
   \<and> (0 < bs \<and> mset completion = mset [0 ..< total_batches bs urls]
        \<and> 1 \<le> (case max_workers of None \<Rightarrow> min cpu_count 8 | Some w \<Rightarrow> w)
      \<longrightarrow> run_batches netloc bs urls ps max_workers cpu_count completion
            = Inr (process_url_batch netloc urls ps))
   \<and> (0 < bs \<and> mset completion = mset [0 ..< total_batches bs urls]
        \<and> 1 \<le> (case max_workers of None \<Rightarrow> min cpu_count 8 | Some w \<Rightarrow> w)
        \<and> 0 < bs' \<and> mset completion' = mset [0 ..< total_batches bs' urls]
        \<and> 1 \<le> (case max_workers' of None \<Rightarrow> min cpu_count' 8 | Some w \<Rightarrow> w)
      \<longrightarrow> run_batches netloc bs urls ps max_workers cpu_count completion
            = run_batches netloc bs' urls ps max_workers' cpu_count' completion')
   \<and> (mset completion = mset [0 ..< total_batches batch_size urls]
        \<and> 1 \<le> (case max_workers of None \<Rightarrow> min cpu_count 8 | Some w \<Rightarrow> w)
      \<longrightarrow> extract_domains_from_urls netloc (Some urls) ps max_workers cpu_count completion
            = Inr (process_url_batch netloc urls ps))"
proof -
  have p: "mset completion = mset [0 ..< total_batches bs urls] \<longrightarrow>
        merge_batches netloc bs urls ps completion
          = merge_batches netloc bs urls ps [0 ..< total_batches bs urls]"
    using merge_batches_perm by blast
  have r: "0 < bs \<and> mset completion = mset [0 ..< total_batches bs urls]
        \<and> 1 \<le> (case max_workers of None \<Rightarrow> min cpu_count 8 | Some w \<Rightarrow> w)
      \<longrightarrow> run_batches netloc bs urls ps max_workers cpu_count completion
            = Inr (process_url_batch netloc urls ps)"
    using run_batches_whole by blast
  have r': "0 < bs' \<and> mset completion' = mset [0 ..< total_batches bs' urls]
        \<and> 1 \<le> (case max_workers' of None \<Rightarrow> min cpu_count' 8 | Some w \<Rightarrow> w)
      \<longrightarrow> run_batches netloc bs' urls ps max_workers' cpu_count' completion'
            = Inr (process_url_batch netloc urls ps)"
    using run_batches_whole by blast
  have e: "mset completion = mset [0 ..< total_batches batch_size urls]
        \<and> 1 \<le> (case max_workers of None \<Rightarrow> min cpu_count 8 | Some w \<Rightarrow> w)
      \<longrightarrow> extract_domains_from_urls netloc (Some urls) ps max_workers cpu_count completion
            = Inr (process_url_batch netloc urls ps)"
    using run_batches_whole[where bs=batch_size and completion=completion and urls=urls
        and max_workers=max_workers and cpu_count=cpu_count and netloc=netloc and ps=ps]
    by (simp add: extract_domains_from_urls_def batch_size_def)
  show ?thesis using merge_comm[of a b] merge_assoc[of a b c] p r r' e by simp
qed

theorem merge_invariance_witness:
  "0 < (2::nat) \<and> mset [3, 1, 0, 2] = mset [0 ..< total_batches 2 example_urls]
   \<and> (1::int) \<le> (case Some 4 of None \<Rightarrow> min 1 8 | Some w \<Rightarrow> w)
   \<and> 0 < (3::nat) \<and> mset [2, 0, 1] = mset [0 ..< total_batches 3 example_urls]
   \<and> (1::int) \<le> (case Some 8 of None \<Rightarrow> min 1 8 | Some w \<Rightarrow> w)
   \<and> run_batches example_netloc 2 example_urls [] (Some 4) 1 [3, 1, 0, 2]
     = run_batches example_netloc 3 example_urls [] (Some 8) 1 [2, 0, 1]
   \<and> run_batches example_netloc 2 example_urls [] (Some 4) 1 [3, 1, 0, 2]
     = Inr (process_url_batch example_netloc example_urls [])
   \<and> merge_batches example_netloc 2 example_urls [] [3, 1, 0, 2]
     = merge_batches example_netloc 2 example_urls [] [0 ..< total_batches 2 example_urls]"
proof -
  have t2: "total_batches 2 example_urls = 4"
    by (simp add: total_batches_def example_urls_def)
  have t3: "total_batches 3 example_urls = 3"
    by (simp add: total_batches_def example_urls_def)
  have u4: "[0 ..< 4] = [0, 1, 2, 3::nat]" by (simp add: upt_rec)
  have u3: "[0 ..< 3] = [0, 1, 2::nat]" by (simp add: upt_rec)
  have m2: "mset [3, 1, 0, 2] = mset [0 ..< total_batches 2 example_urls]"
    unfolding t2 u4 by simp
  have m3: "mset [2, 0, 1] = mset [0 ..< total_batches 3 example_urls]"
    unfolding t3 u3 by simp
  have w4: "(1::int) \<le> (case Some 4 of None \<Rightarrow> min 1 8 | Some w \<Rightarrow> w)" by simp
  have w8: "(1::int) \<le> (case Some 8 of None \<Rightarrow> min 1 8 | Some w \<Rightarrow> w)" by simp
  have b2: "0 < (2::nat)" and b3: "0 < (3::nat)" by simp_all
  from merge_invariance[where completion="[3, 1, 0, 2]" and bs=2 and urls=example_urls
      and netloc=example_netloc and ps="[]" and max_workers="Some 4" and cpu_count=1
      and bs'=3 and completion'="[2, 0, 1]" and max_workers'="Some 8" and cpu_count'=1]
    m2 m3 w4 w8 b2 b3
  show ?thesis by blast
qed



text \<open>
  C3. Per-URL classification. The state of the loop of \<open>process_url_batch\<close> before a
  URL is the result of the URLs before it, and the state after it is the result of
  those URLs and that URL. Exactly one of four things happens to the URL (the value of
  \<open>classify\<close>): the extraction fails or gives an empty host, and nothing changes; the
  raw host fails the TLD check, and only the rejected count grows, by 1; the raw host
  passes and the normalized host fails the second check, and only the rejected count
  grows, by 1; both checks pass, and the normalized domain is added to the set and its
  count grows by 1.
\<close>

theorem per_url_classification:
  "(let before = process_url_batch netloc pre ps;
        after = process_url_batch netloc (pre @ [u]) ps
    in case classify netloc ps u of
         Skipped \<Rightarrow> after = before
       | RejectedRaw \<Rightarrow>
           removed after = removed before + 1 \<and> domains after = domains before
             \<and> counts after = counts before
       | RejectedNormalized \<Rightarrow>
           removed after = removed before + 1 \<and> domains after = domains before
             \<and> counts after = counts before
       | Counted d \<Rightarrow>
           domains after = insert d (domains before)
             \<and> counts after = (counts before)(d \<mapsto> counter_get (counts before) d + 1)
             \<and> removed after = removed before)
   \<and> (classify netloc ps u = Skipped) = (netloc u = None \<or> netloc u = Some [])
   \<and> (classify netloc ps u = RejectedRaw)
       = (\<exists>h. netloc u = Some h \<and> h \<noteq> [] \<and> \<not> has_valid_tld h)
   \<and> (classify netloc ps u = RejectedNormalized)
       = (\<exists>h. netloc u = Some h \<and> h \<noteq> [] \<and> has_valid_tld h
              \<and> (\<forall>d. normalize_domain h ps = Some d \<longrightarrow> \<not> has_valid_tld d))
   \<and> (classify netloc ps u = Counted d')
       = (\<exists>h. netloc u = Some h \<and> h \<noteq> [] \<and> has_valid_tld h
              \<and> normalize_domain h ps = Some d' \<and> has_valid_tld d')"
proof -
  have eff: "let before = process_url_batch netloc pre ps;
        after = process_url_batch netloc (pre @ [u]) ps
    in case classify netloc ps u of
         Skipped \<Rightarrow> after = before
       | RejectedRaw \<Rightarrow>
           removed after = removed before + 1 \<and> domains after = domains before
             \<and> counts after = counts before
       | RejectedNormalized \<Rightarrow>
           removed after = removed before + 1 \<and> domains after = domains before
             \<and> counts after = counts before
       | Counted d \<Rightarrow>
           domains after = insert d (domains before)
             \<and> counts after = (counts before)(d \<mapsto> counter_get (counts before) d + 1)
             \<and> removed after = removed before"
    by (simp add: Let_def batch_snoc split: outcome.splits)
  have c1: "(classify netloc ps u = Skipped) = (netloc u = None \<or> netloc u = Some [])"
    by (auto simp: classify_def split: option.splits if_splits)
  have c2: "(classify netloc ps u = RejectedRaw)
       = (\<exists>h. netloc u = Some h \<and> h \<noteq> [] \<and> \<not> has_valid_tld h)"
    by (auto simp: classify_def split: option.splits if_splits)
  have c3: "(classify netloc ps u = RejectedNormalized)
       = (\<exists>h. netloc u = Some h \<and> h \<noteq> [] \<and> has_valid_tld h
              \<and> (\<forall>d. normalize_domain h ps = Some d \<longrightarrow> \<not> has_valid_tld d))"
    by (auto simp: classify_def split: option.splits if_splits)
  have c4: "(classify netloc ps u = Counted d')
       = (\<exists>h. netloc u = Some h \<and> h \<noteq> [] \<and> has_valid_tld h
              \<and> normalize_domain h ps = Some d' \<and> has_valid_tld d')"
    by (auto simp: classify_def split: option.splits if_splits)
  show ?thesis using eff c1 c2 c3 c4 by (intro conjI)
qed

theorem per_url_classification_witness:
  "classify example_netloc [] ''https://a.b.c.example.com/x'' = Counted ''c.example.com''
   \<and> (\<exists>h. example_netloc ''https://a.b.c.example.com/x'' = Some h \<and> h \<noteq> [] \<and> has_valid_tld h
          \<and> normalize_domain h [] = Some ''c.example.com'' \<and> has_valid_tld ''c.example.com'')
   \<and> domains (process_url_batch example_netloc ([''https://c.example.com/''] @ [''https://a.b.c.example.com/x'']) [])
       = insert ''c.example.com'' (domains (process_url_batch example_netloc [''https://c.example.com/''] []))"
proof -
  have c: "classify example_netloc [] ''https://a.b.c.example.com/x'' = Counted ''c.example.com''"
    by code_simp
  from per_url_classification[of example_netloc "[''https://c.example.com/'']" "[]"
      "''https://a.b.c.example.com/x''" "''c.example.com''"] c
  show ?thesis by (simp add: Let_def)
qed

text \<open>
  C10. In every result of a batch the set of domains is the key set of the counter and
  every count is at least 1; the merge keeps this, and it holds in the final result of
  \<open>extract_domains_from_urls\<close>.
\<close>

theorem consistency:
  "consistent (process_url_batch netloc urls ps)
   \<and> (consistent a \<and> consistent b \<longrightarrow> consistent (merge a b))
   \<and> (extract_domains_from_urls netloc (Some urls) ps max_workers cpu_count completion = Inr r
        \<and> mset completion = mset [0 ..< total_batches batch_size urls]
      \<longrightarrow> consistent r)"
  using consistent_batch[of netloc urls ps] consistent_merge[of a b]
    extract_result[of netloc urls ps max_workers cpu_count completion r]
  by blast

theorem consistency_witness:
  "consistent (process_url_batch example_netloc example_urls [])
   \<and> consistent (process_url_batch example_netloc [''https://example.com/''] [])
   \<and> consistent (merge (process_url_batch example_netloc example_urls [])
                       (process_url_batch example_netloc [''https://example.com/''] []))"
proof -
  have a: "consistent (process_url_batch example_netloc example_urls [])"
    using consistency[of example_netloc example_urls "[]"] by (rule conjunct1)
  have b: "consistent (process_url_batch example_netloc [''https://example.com/''] [])"
    using consistency[of example_netloc "[''https://example.com/'']" "[]"] by (rule conjunct1)
  from consistency[of example_netloc example_urls "[]"
      "process_url_batch example_netloc example_urls []"
      "process_url_batch example_netloc [''https://example.com/''] []"] a b
  show ?thesis by blast
qed


section \<open>Properties of the loader\<close>

lemma compile_all_eq:
  "compile_all re_compile file ps =
     (if raising re_compile ps then None
      else Some (compiled_of re_compile ps,
                 map (InvalidRegex file) (failing_lines re_compile ps)))"
  by (induction ps)
     (auto simp: compiled_of_def failing_lines_def raising_def split: compiled.splits)

lemma compiled_all:
  "\<not> raising re_compile ps \<Longrightarrow> failing_lines re_compile ps = [] \<Longrightarrow>
     map Compiled (compiled_of re_compile ps) = map (\<lambda>(pattern, line_num). re_compile pattern) ps"
  by (induction ps)
     (auto simp: compiled_of_def failing_lines_def raising_def split: compiled.splits if_splits)

lemma read_patterns_eq:
  "read_patterns file_lines =
     map (\<lambda>i. (strip (file_lines ! i), Suc i))
       (filter (\<lambda>i. is_rule_line (strip (file_lines ! i))) [0 ..< length file_lines])"
proof -
  have e: "enumerate 1 file_lines = map (\<lambda>i. (Suc i, file_lines ! i)) [0 ..< length file_lines]"
    by (rule nth_equalityI) (simp_all add: nth_enumerate_eq)
  show ?thesis
    unfolding read_patterns_def e by (simp add: filter_map comp_def)
qed

lemma strict_eq:
  "load_domain_patterns re_compile fs (Some path) =
     (case fs path of
        None \<Rightarrow> ([], Inl (FileNotFound path))
      | Some (ReadFailed seen) \<Rightarrow> ([], Inl (CouldNotLoad path))
      | Some (ReadOk file_lines) \<Rightarrow>
          if raising re_compile (read_patterns file_lines) then ([], Inl CompileRaised)
          else if failing_lines re_compile (read_patterns file_lines) = []
          then ([], Inr (compiled_of re_compile (read_patterns file_lines)))
          else (map (InvalidRegex path) (failing_lines re_compile (read_patterns file_lines)),
                Inl InvalidPatterns))"
  by (simp add: load_domain_patterns_def load_strict_def compile_all_eq
           split: option.splits read_result.splits)

lemma lenient_eq:
  "load_domain_patterns re_compile fs None =
     (let (patterns, warned) = read_default fs;
          survivors = compiled_of re_compile patterns;
          failing = map (InvalidRegex default_file) (failing_lines re_compile patterns);
          warned_all = (if failing \<noteq> [] then [WarnAllFailed] else []);
          builtin = compiled_of re_compile numbered_defaults;
          builtin_failing = map (InvalidRegex ''default_patterns.txt'')
                              (failing_lines re_compile numbered_defaults)
      in if raising re_compile patterns then (warned, Inl CompileRaised)
         else if survivors \<noteq> []
         then (warned @ (if failing \<noteq> [] then WarnSomeFailed # failing else []), Inr survivors)
         else if raising re_compile numbered_defaults
         then (warned @ warned_all, Inl CompileRaised)
         else if builtin \<noteq> []
         then (warned @ warned_all, Inr builtin)
         else (warned @ warned_all @ failing @ builtin_failing, Inl AllPatternsFailed))"
  by (simp add: load_domain_patterns_def load_lenient_def compile_all_eq Let_def
           split: prod.splits)

text \<open>
  C8, as the code has it. With an explicit path, loading raises file-not-found when the
  path does not exist, and raises could-not-load when the path exists and reading it
  raises. When the file is read, the lines kept are the stripped lines that are not
  empty and do not start with \<open>#\<close>, each with its line number, in file order. When
  \<open>re.compile\<close> raises nothing but \<open>re.error\<close> on them, every one of them is
  compiled; if some do not compile, one line naming the file and the line number is
  printed for each of them, invalid-patterns is raised and no rule list is returned; if
  all compile, the rules of all kept lines are returned in file order.
\<close>

theorem strict_loading:
  "(fs path = None \<longrightarrow>
      load_domain_patterns re_compile fs (Some path) = ([], Inl (FileNotFound path)))
   \<and> (fs path = Some (ReadFailed seen) \<longrightarrow>
      load_domain_patterns re_compile fs (Some path) = ([], Inl (CouldNotLoad path)))
   \<and> (fs path = Some (ReadOk file_lines) \<and> \<not> raising re_compile (read_patterns file_lines) \<longrightarrow>
      load_domain_patterns re_compile fs (Some path) =
        (if failing_lines re_compile (read_patterns file_lines) = []
         then ([], Inr (compiled_of re_compile (read_patterns file_lines)))
         else (map (InvalidRegex path) (failing_lines re_compile (read_patterns file_lines)),
               Inl InvalidPatterns)))
   \<and> read_patterns file_lines =
       map (\<lambda>i. (strip (file_lines ! i), Suc i))
         (filter (\<lambda>i. is_rule_line (strip (file_lines ! i))) [0 ..< length file_lines])
   \<and> (\<not> raising re_compile (read_patterns file_lines)
        \<and> failing_lines re_compile (read_patterns file_lines) = [] \<longrightarrow>
        map Compiled (compiled_of re_compile (read_patterns file_lines))
          = map (\<lambda>(pattern, line_num). re_compile pattern) (read_patterns file_lines))"
proof -
  have a: "fs path = None \<longrightarrow>
      load_domain_patterns re_compile fs (Some path) = ([], Inl (FileNotFound path))"
    by (simp add: strict_eq)
  have b: "fs path = Some (ReadFailed seen) \<longrightarrow>
      load_domain_patterns re_compile fs (Some path) = ([], Inl (CouldNotLoad path))"
    by (simp add: strict_eq)
  have c: "fs path = Some (ReadOk file_lines) \<and> \<not> raising re_compile (read_patterns file_lines) \<longrightarrow>
      load_domain_patterns re_compile fs (Some path) =
        (if failing_lines re_compile (read_patterns file_lines) = []
         then ([], Inr (compiled_of re_compile (read_patterns file_lines)))
         else (map (InvalidRegex path) (failing_lines re_compile (read_patterns file_lines)),
               Inl InvalidPatterns))"
    by (simp add: strict_eq)
  show ?thesis
    using a b c read_patterns_eq[of file_lines]
      compiled_all[of re_compile "read_patterns file_lines"]
    by blast
qed

theorem strict_loading_witness:
  "rules_fs ''rules.txt'' = Some (ReadOk rules_lines)
   \<and> \<not> raising example_compile (read_patterns rules_lines)
   \<and> read_patterns rules_lines = [(rule_text (esc ''github.io''), 3), (''(unclosed'', 4)]
   \<and> load_domain_patterns example_compile rules_fs (Some ''rules.txt'')
     = ([InvalidRegex ''rules.txt'' 4], Inl InvalidPatterns)
   \<and> no_fs ''rules.txt'' = None
   \<and> load_domain_patterns example_compile no_fs (Some ''rules.txt'')
     = ([], Inl (FileNotFound ''rules.txt''))
   \<and> dir_fs ''/tmp'' = Some (ReadFailed [])
   \<and> load_domain_patterns example_compile dir_fs (Some ''/tmp'')
     = ([], Inl (CouldNotLoad ''/tmp''))
   \<and> good_fs ''rules.txt'' = Some (ReadOk good_lines)
   \<and> \<not> raising example_compile (read_patterns good_lines)
   \<and> failing_lines example_compile (read_patterns good_lines) = []
   \<and> load_domain_patterns example_compile good_fs (Some ''rules.txt'')
     = ([], Inr [suffix_rule ''github.io'', suffix_rule ''cdn.net''])
   \<and> map Compiled [suffix_rule ''github.io'', suffix_rule ''cdn.net'']
     = map (\<lambda>(pattern, line_num). example_compile pattern) (read_patterns good_lines)"
proof -
  have gf: "good_fs ''rules.txt'' = Some (ReadOk good_lines)" by (simp add: good_fs_def)
  have gr: "\<not> raising example_compile (read_patterns good_lines)" by code_simp
  have gl: "failing_lines example_compile (read_patterns good_lines) = []" by code_simp
  have gc: "compiled_of example_compile (read_patterns good_lines)
      = [suffix_rule ''github.io'', suffix_rule ''cdn.net'']"
    by code_simp
  from strict_loading[of good_fs "''rules.txt''" example_compile _ good_lines,
      THEN conjunct2, THEN conjunct2, THEN conjunct1] gf gr
  have ga: "load_domain_patterns example_compile good_fs (Some ''rules.txt'')
     = ([], Inr [suffix_rule ''github.io'', suffix_rule ''cdn.net''])"
    by (simp add: gl gc)
  from strict_loading[of good_fs "''rules.txt''" example_compile _ good_lines,
      THEN conjunct2, THEN conjunct2, THEN conjunct2, THEN conjunct2] gr gl
  have gm: "map Compiled [suffix_rule ''github.io'', suffix_rule ''cdn.net'']
     = map (\<lambda>(pattern, line_num). example_compile pattern) (read_patterns good_lines)"
    by (simp only: gc simp_thms)
  have f: "rules_fs ''rules.txt'' = Some (ReadOk rules_lines)" by (simp add: rules_fs_def)
  have r: "\<not> raising example_compile (read_patterns rules_lines)" by code_simp
  have l: "failing_lines example_compile (read_patterns rules_lines) = [4]" by code_simp
  have p: "read_patterns rules_lines = [(rule_text (esc ''github.io''), 3), (''(unclosed'', 4)]"
    by code_simp
  have n: "no_fs ''rules.txt'' = None" by (simp add: no_fs_def)
  have d: "dir_fs ''/tmp'' = Some (ReadFailed [])" by (simp add: dir_fs_def)
  from strict_loading[of rules_fs "''rules.txt''" example_compile _ rules_lines,
      THEN conjunct2, THEN conjunct2, THEN conjunct1] f r
  have a: "load_domain_patterns example_compile rules_fs (Some ''rules.txt'')
     = ([InvalidRegex ''rules.txt'' 4], Inl InvalidPatterns)"
    by (simp add: l)
  from strict_loading[of no_fs "''rules.txt''" example_compile, THEN conjunct1] n
  have b: "load_domain_patterns example_compile no_fs (Some ''rules.txt'')
     = ([], Inl (FileNotFound ''rules.txt''))"
    by simp
  from strict_loading[of dir_fs "''/tmp''" example_compile "[]", THEN conjunct2, THEN conjunct1] d
  have c: "load_domain_patterns example_compile dir_fs (Some ''/tmp'')
     = ([], Inl (CouldNotLoad ''/tmp''))"
    by simp
  from f r p a n b d c gf gr gl ga gm show ?thesis by (intro conjI)
qed

text \<open>
  C8, as stated, fails: \<open>/tmp\<close> exists, so loading does not fail with file-not-found,
  yet no line is compiled and neither a rule list nor the aggregated error comes back:
  the read raises and the loader raises could-not-load.
\<close>

theorem strict_loading_counterexample:
  "dir_fs ''/tmp'' = Some (ReadFailed [])
   \<and> load_domain_patterns example_compile dir_fs (Some ''/tmp'') = ([], Inl (CouldNotLoad ''/tmp''))"
  by (simp add: dir_fs_def load_domain_patterns_def load_strict_def)

text \<open>
  C9 at an input where the code does not do what the claim says. The default file has
  a rule that compiles and the line \<^verbatim>\<open>a{4294967295}\<close>, on which \<open>re.compile\<close>
  raises \<open>OverflowError\<close>. The lenient loop catches \<open>re.error\<close> only: the line is
  not dropped with a warning, the load raises, although the rule before it compiles and
  all 24 built-in rules compile.
\<close>

theorem lenient_loading_overflow:
  "overflow_fs default_file = Some (ReadOk overflow_lines)
   \<and> read_patterns overflow_lines = [(rule_text (esc ''github.io''), 1), (''a{4294967295}'', 2)]
   \<and> example_compile (rule_text (esc ''github.io'')) = Compiled (suffix_rule ''github.io'')
   \<and> example_compile ''a{4294967295}'' = Raised
   \<and> map example_compile default_patterns = map Compiled builtin_rules
   \<and> length builtin_rules = 24
   \<and> load_domain_patterns example_compile overflow_fs None = ([], Inl CompileRaised)"
proof -
  have f: "overflow_fs default_file = Some (ReadOk overflow_lines)"
    by (simp add: overflow_fs_def default_file_def)
  have p: "read_patterns overflow_lines = [(rule_text (esc ''github.io''), 1), (''a{4294967295}'', 2)]"
    by code_simp
  have g: "example_compile (rule_text (esc ''github.io'')) = Compiled (suffix_rule ''github.io'')"
    by code_simp
  have o: "example_compile ''a{4294967295}'' = Raised" by code_simp
  have b: "map example_compile default_patterns = map Compiled builtin_rules" by code_simp
  have n: "length builtin_rules = 24" by (simp add: builtin_rules_def)
  have l: "load_domain_patterns example_compile overflow_fs None = ([], Inl CompileRaised)"
    by (simp add: load_domain_patterns_def load_lenient_def read_default_def f p g o)
  from f p g o b n l show ?thesis by (intro conjI)
qed

text \<open>Without such a line the lenient branch does what C9 says: the rules of the
  default file that compile, else the built-in rules that compile, and an error only
  when there is none of either.\<close>

lemma lenient_without_raise:
  "\<not> raising re_compile (fst (read_default fs)) \<Longrightarrow> \<not> raising re_compile numbered_defaults \<Longrightarrow>
   snd (load_domain_patterns re_compile fs None) =
     (if compiled_of re_compile (fst (read_default fs)) \<noteq> []
      then Inr (compiled_of re_compile (fst (read_default fs)))
      else if compiled_of re_compile numbered_defaults \<noteq> []
      then Inr (compiled_of re_compile numbered_defaults)
      else Inl AllPatternsFailed)"
  by (cases "read_default fs") (simp add: lenient_eq Let_def)

lemma lenient_examples:
  "load_domain_patterns example_compile no_fs None = ([], Inr builtin_rules)"
  "load_domain_patterns example_compile default_fs None
     = ([WarnSomeFailed, InvalidRegex default_file 3], Inr [suffix_rule ''github.io''])"
  "load_domain_patterns example_compile broken_fs None = ([WarnAllFailed], Inr builtin_rules)"
proof -
  have b: "compile_all example_compile ''default_patterns.txt'' numbered_defaults
      = Some (builtin_rules, [])"
    by code_simp
  have n: "builtin_rules \<noteq> []" by (simp add: builtin_rules_def)
  have d: "compile_all example_compile default_file (read_patterns default_lines)
      = Some ([suffix_rule ''github.io''], [InvalidRegex default_file 3])"
    by code_simp
  have k: "compile_all example_compile default_file
             (read_patterns [''(unclosed'', ''# nothing else''])
      = Some ([], [InvalidRegex default_file 1])"
    by code_simp
  show "load_domain_patterns example_compile no_fs None = ([], Inr builtin_rules)"
    by (simp add: load_domain_patterns_def load_lenient_def read_default_def no_fs_def b n)
  show "load_domain_patterns example_compile default_fs None
     = ([WarnSomeFailed, InvalidRegex default_file 3], Inr [suffix_rule ''github.io''])"
    by (simp add: load_domain_patterns_def load_lenient_def read_default_def default_fs_def
          default_file_def[symmetric] d)
  show "load_domain_patterns example_compile broken_fs None = ([WarnAllFailed], Inr builtin_rules)"
    by (simp add: load_domain_patterns_def load_lenient_def read_default_def broken_fs_def
          default_file_def[symmetric] k b n)
qed

end
